theory Spec2Isabelle
  imports Main
begin

section \<open>JavaScript strings\<close>

text \<open>
  The parser \<^verbatim>\<open>LGObject.toLG\<close> works on JavaScript strings. A string is modelled as a
  HOL \<^typ>\<open>string\<close>, each \<^typ>\<open>char\<close> standing for one code unit below 256.
  Among those code units, \<^verbatim>\<open>String.prototype.trim\<close> removes tab, line feed, vertical
  tab, form feed, carriage return, space and the no-break space; the regular expression
  dot refuses line feed and carriage return.
\<close>

definition isWhitespace :: "char \<Rightarrow> bool" where
  "isWhitespace c =
     (c = CHR 0x09 \<or> c = CHR 0x0A \<or> c = CHR 0x0B \<or> c = CHR 0x0C \<or> c = CHR 0x0D
      \<or> c = CHR 0x20 \<or> c = CHR 0xA0)"

definition isLineTerminator :: "char \<Rightarrow> bool" where
  "isLineTerminator c = (c = CHR 0x0A \<or> c = CHR 0x0D)"

definition trim :: "string \<Rightarrow> string" where
  "trim s = rev (dropWhile isWhitespace (rev (dropWhile isWhitespace s)))"

text \<open>\<^verbatim>\<open>s.indexOf(p) === 0\<close>: the string \<open>s\<close> begins with \<open>p\<close>.\<close>

definition startsWith :: "string \<Rightarrow> string \<Rightarrow> bool" where
  "startsWith p s = (take (length p) s = p)"

text \<open>\<^verbatim>\<open>s.replace(p, r)\<close> with a string pattern: the first occurrence of \<open>p\<close> only
  (the replacement is taken literally, it holds no dollar pattern in this program).\<close>

fun replaceFirst :: "string \<Rightarrow> string \<Rightarrow> string \<Rightarrow> string" where
  "replaceFirst p r [] = (if p = [] then r else [])"
| "replaceFirst p r (c # cs) =
     (if startsWith p (c # cs) then r @ drop (length p) (c # cs)
      else c # replaceFirst p r cs)"

text \<open>\<^verbatim>\<open>s.split(sep)\<close> with a separator of one character.\<close>

fun splitChar :: "char \<Rightarrow> string \<Rightarrow> string list" where
  "splitChar sep [] = [[]]"
| "splitChar sep (c # cs) =
     (if c = sep then [] # splitChar sep cs
      else (case splitChar sep cs of
              [] \<Rightarrow> [[c]]
            | l # ls \<Rightarrow> (c # l) # ls))"

text \<open>\<^verbatim>\<open>chunk.split(/\r\n|\r|\n/g)\<close>: a carriage return followed by a line feed is
  one separator.\<close>

fun splitLines :: "string \<Rightarrow> string list" where
  "splitLines [] = [[]]"
| "splitLines (c # cs) =
     (if c = CHR 0x0D then
        [] # (case cs of
                [] \<Rightarrow> splitLines cs
              | d # ds \<Rightarrow> if d = CHR 0x0A then splitLines ds else splitLines cs)
      else if c = CHR 0x0A then [] # splitLines cs
      else (case splitLines cs of
              [] \<Rightarrow> [[c]]
            | l # ls \<Rightarrow> (c # l) # ls))"

text \<open>\<^verbatim>\<open>line.substring(line.indexOf(' ') + 1)\<close>: the text after the first space, the
  whole line when it has no space (\<^verbatim>\<open>indexOf\<close> is then \<open>-1\<close>).\<close>

definition afterFirstSpace :: "string \<Rightarrow> string" where
  "afterFirstSpace s =
     (if CHR 0x20 \<in> set s then drop 1 (dropWhile (\<lambda>c. c \<noteq> CHR 0x20) s) else s)"

section \<open>Template link references\<close>

text \<open>
  The tail \<^verbatim>\<open>(.*?)\)\<close> of both regular expressions of the program, tried on the text
  that follows an opening parenthesis: the lazy group takes the characters up to the
  first closing parenthesis and fails on a line terminator. The result is the captured
  group and the text left after the closing parenthesis.
\<close>

fun lazyToClose :: "string \<Rightarrow> (string \<times> string) option" where
  "lazyToClose [] = None"
| "lazyToClose (c # cs) =
     (if c = CHR 0x29 then Some ([], cs)
      else if isLineTerminator c then None
      else (case lazyToClose cs of
              None \<Rightarrow> None
            | Some (cap, rest) \<Rightarrow> Some (c # cap, rest)))"

lemma lazyToClose_shorter:
  "lazyToClose s = Some (cap, rest) \<Longrightarrow> length rest < length s"
  by (induction s arbitrary: cap) (auto split: if_splits option.splits)

text \<open>
  \<^verbatim>\<open>item.split(/\]\((.*?)\)/g)\<close>: the pieces between the matches, with the captured
  group of each match spliced in between. \<open>acc\<close> is the piece being read. A match is
  never empty, so the scan goes on strictly behind it.
\<close>

function splitLinksFrom :: "string \<Rightarrow> string \<Rightarrow> string list" where
  "splitLinksFrom acc [] = [acc]"
| "splitLinksFrom acc (c # cs) =
     (if c = CHR 0x5D \<and> startsWith [CHR 0x28] cs then
        (case lazyToClose (drop 1 cs) of
           Some (cap, rest) \<Rightarrow> acc # cap # splitLinksFrom [] rest
         | None \<Rightarrow> splitLinksFrom (acc @ [c]) cs)
      else splitLinksFrom (acc @ [c]) cs)"
  by pat_completeness auto
termination
proof (relation "measure (\<lambda>(acc, s). length s)")
  show "wf (measure (\<lambda>(acc, s). length s))" by simp
next
  fix acc :: string and c cs x2 x y
  assume "lazyToClose (drop 1 cs) = Some x2" and "(x, y) = x2"
  then have "lazyToClose (drop 1 cs) = Some (x, y)" by simp
  from lazyToClose_shorter [OF this] have "length y < length (drop 1 cs)" .
  then show "(([], y), acc, c # cs) \<in> measure (\<lambda>(acc, s). length s)" by simp
qed simp_all

definition splitLinks :: "string \<Rightarrow> string list" where
  "splitLinks s = splitLinksFrom [] s"

text \<open>The loop \<^verbatim>\<open>for(i = 0; i < parts.length - 1; i += 2) retItem += parts[i] + ']'\<close>,
  on the list from index \<open>i\<close> on.\<close>

fun joinLabels :: "string list \<Rightarrow> string" where
  "joinLabels (p # q # ps) = p @ [CHR 0x5D] @ joinLabels ps"
| "joinLabels ps = []"

definition removeTemplateLinkReferences :: "string \<Rightarrow> string" where
  "removeTemplateLinkReferences item =
     (let itemsSplitByTemplateRef = splitLinks item in
      if length itemsSplitByTemplateRef = 1 then item
      else joinLabels itemsSplitByTemplateRef)"

section \<open>Errors\<close>

text \<open>
  The error codes that \<^verbatim>\<open>toLG\<close> names; \<open>VALIDATOR_CODE\<close> stands for the codes of
  the validators, whose file is not part of the sources. A thrown error is the pair of
  a code and a text (\<^verbatim>\<open>new Exception(errCode, text)\<close> and the object literal
  \<^verbatim>\<open>{errCode, text}\<close> alike); \<open>TypeError\<close> is what the JavaScript engine raises when
  a property of \<^verbatim>\<open>null\<close> or \<^verbatim>\<open>undefined\<close> is read.
\<close>

datatype errCode =
    NO_LIST_DECORATION_ON_VARIATION
  | INVALID_TEMPLATE
  | INVALID_LG_FILE_REF
  | INVALID_ENTITY_DEFINITION
  | INVALID_INPUT
  | VALIDATOR_CODE string

datatype error = Thrown errCode string | TypeError

definition bindE :: "error + 'a \<Rightarrow> ('a \<Rightarrow> error + 'b) \<Rightarrow> error + 'b" where
  "bindE m f = (case m of Inl e \<Rightarrow> Inl e | Inr x \<Rightarrow> f x)"

text \<open>\<^verbatim>\<open>xs.forEach(f)\<close> where \<open>f\<close> may throw: the first error ends the loop.\<close>

fun forEachE :: "('s \<Rightarrow> 'a \<Rightarrow> error + 's) \<Rightarrow> 's \<Rightarrow> 'a list \<Rightarrow> error + 's" where
  "forEachE f s [] = Inr s"
| "forEachE f s (x # xs) = bindE (f s x) (\<lambda>s'. forEachE f s' xs)"

definition dquote :: string where
  "dquote = [CHR 0x22]"

section \<open>The object model\<close>

text \<open>
  Modelled from the spec: the classes \<^verbatim>\<open>LGTemplate\<close>, \<^verbatim>\<open>LGConditionalResponse\<close>,
  \<^verbatim>\<open>LGEntity\<close> and \<^verbatim>\<open>LGParsedObj\<close> are required by the parser but their files are
  not part of the sources. Their fields are the ones the parser reads and writes; a
  constructor stores its arguments, and a list that is not given starts empty. The
  field \<open>variations\<close> of a conditional response is called \<open>cr_variations\<close> here, the
  field \<open>name\<close> of an entity \<open>e_name\<close>.

  The parser holds templates and conditional responses by reference and writes through
  the references, so both kinds of object live in a store: \<open>templateObjs\<close> and
  \<open>conditionObjs\<close> are the objects allocated so far, a reference is an index into them,
  and \<^verbatim>\<open>new\<close> appends. \<open>LGTemplates\<close> and \<open>conditionalResponses\<close> are lists of
  references. Entities are only ever reached through the entity list, which holds them
  by value.
\<close>

record LGConditionalResponse =
  condition :: string
  cr_variations :: "string list"

record LGTemplate =
  name :: string
  variations :: "string list"
  conditionalResponses :: "nat list"

record LGEntity =
  e_name :: string
  entityType :: "string option"
  attributes :: "(string \<times> string option) list"

record LGObject =
  LGTemplates :: "nat list"
  entities :: "LGEntity list"
  templateObjs :: "LGTemplate list"
  conditionObjs :: "LGConditionalResponse list"

record LGParsedObj =
  LGObject :: "LGObject option"
  additionalFilesToParse :: "string list"

definition new_LGObject :: LGObject where
  "new_LGObject = \<lparr>LGTemplates = [], entities = [], templateObjs = [], conditionObjs = []\<rparr>"

definition new_LGParsedObj :: LGParsedObj where
  "new_LGParsedObj = \<lparr>LGObject = None, additionalFilesToParse = []\<rparr>"

text \<open>The templates behind the references.\<close>

definition templatesOf :: "'a LGObject_scheme \<Rightarrow> LGTemplate list" where
  "templatesOf ob = map (\<lambda>r. templateObjs ob ! r) (LGTemplates ob)"

definition templateNames :: "'a LGObject_scheme \<Rightarrow> string list" where
  "templateNames ob = map name (templatesOf ob)"

section \<open>The collaborators of the parser\<close>

text \<open>
  Modelled from the spec: the markers of \<^verbatim>\<open>enums/parserconsts\<close>, the entity scanner
  \<^verbatim>\<open>helpers.parseEntity\<close>, the validators of \<^verbatim>\<open>utils/validation\<close> and
  \<^verbatim>\<open>LGEntity.getEntityType\<close> are used by the parser but are not part of the sources.
  They are parameters of the model: \<open>parseEntity\<close> gives the entity names found in a
  line, \<open>validateCondition\<close> gives the error it throws if any,
  \<open>validateVariationItem\<close> throws or answers, \<open>getEntityType\<close> maps the type written
  in a definition to the stored type.
\<close>

record parserConsts =
  INTENT :: string
  FILEREF :: string
  ENTITY :: string
  CONDITION :: string
  DEFAULT :: string
  ELSE :: string

record env = parserConsts +
  parseEntity :: "string \<Rightarrow> string list"
  validateCondition :: "string \<Rightarrow> bool \<Rightarrow> error option"
  validateVariationItem :: "string \<Rightarrow> error + bool"
  getEntityType :: "string \<Rightarrow> string"

section \<open>The body of a template chunk\<close>

text \<open>
  The variables of \<^verbatim>\<open>toLG\<close> that live while one template chunk is read, next to the
  object under construction: the reference \<open>cLGTemplate\<close>, the flag \<open>pushAtEnd\<close> (one
  variable of the source, written both by the template lookup and by the condition
  lookup), \<open>inConditionalResponses\<close> and \<open>conditionalResponseItem\<close> (\<open>None\<close> is
  \<^verbatim>\<open>null\<close>).
\<close>

record tstate = LGObject +
  cLGTemplate :: nat
  pushAtEnd :: bool
  inConditionalResponses :: bool
  conditionalResponseItem :: "nat option"

text \<open>Lines 86 to 89: an entity found in a line is pushed, with no type and no
  attributes, unless the entity list has its name.\<close>

definition detectEntity :: "LGEntity list \<Rightarrow> string \<Rightarrow> LGEntity list" where
  "detectEntity es item =
     (if filter (\<lambda>eItem. e_name eItem = item) es = []
      then es @ [\<lparr>e_name = item, entityType = None, attributes = []\<rparr>]
      else es)"

text \<open>\<^verbatim>\<open>cLGTemplate.conditionalResponses.push(conditionalResponseItem)\<close>. The item is
  \<^verbatim>\<open>null\<close> only while \<open>inConditionalResponses\<close> is false (lemmas \<open>body_frame\<close>
  and \<open>flushPending_succeeds\<close> below), where no push is made; the model answers a \<open>TypeError\<close> there, which is what
  the next read through the pushed \<^verbatim>\<open>null\<close> would raise.\<close>

definition pushConditional :: "tstate \<Rightarrow> error + tstate" where
  "pushConditional st =
     (case conditionalResponseItem st of
        None \<Rightarrow> Inl TypeError
      | Some r \<Rightarrow>
          (let c = cLGTemplate st; t = templateObjs st ! c in
           Inr (st\<lparr>templateObjs :=
                  (templateObjs st)[c := t\<lparr>conditionalResponses := conditionalResponses t @ [r]\<rparr>]\<rparr>)))"

text \<open>\<^verbatim>\<open>if(inConditionalResponses && pushAtEnd) ....push(conditionalResponseItem)\<close>
  (lines 103, 127 and 162).\<close>

definition flushPending :: "tstate \<Rightarrow> error + tstate" where
  "flushPending st =
     (if inConditionalResponses st \<and> pushAtEnd st then pushConditional st else Inr st)"

text \<open>Lines 115 to 117 (121 to 123, 139 to 141, 145 to 147): validate the condition,
  allocate a block for it, and remember that it is still to be pushed.\<close>

definition newBlock :: "env \<Rightarrow> bool \<Rightarrow> string \<Rightarrow> tstate \<Rightarrow> error + tstate" where
  "newBlock e requiresExpression cond st =
     (case validateCondition e cond requiresExpression of
        Some err \<Rightarrow> Inl err
      | None \<Rightarrow>
          Inr (st\<lparr>conditionObjs := conditionObjs st @ [\<lparr>condition = cond, cr_variations = []\<rparr>],
                  conditionalResponseItem := Some (length (conditionObjs st)),
                  pushAtEnd := True,
                  inConditionalResponses := True\<rparr>))"

text \<open>Lines 103 to 125 for a condition line and 127 to 149 for a default line: the
  two branches of the source differ in the normalised condition and in the flag given
  to the validator, which are the arguments here.\<close>

definition conditionLine :: "env \<Rightarrow> bool \<Rightarrow> string \<Rightarrow> tstate \<Rightarrow> error + tstate" where
  "conditionLine e requiresExpression cond st =
     bindE (flushPending st) (\<lambda>st1.
       let t = templateObjs st1 ! cLGTemplate st1 in
       if conditionalResponses t \<noteq> [] then
         (case filter (\<lambda>r. condition (conditionObjs st1 ! r) = cond) (conditionalResponses t) of
            r # _ \<Rightarrow>
              Inr (st1\<lparr>conditionalResponseItem := Some r,
                       pushAtEnd := False,
                       inConditionalResponses := True\<rparr>)
          | [] \<Rightarrow> newBlock e requiresExpression cond st1)
       else newBlock e requiresExpression cond st1)"

text \<open>Lines 151 to 159: a plain variation goes to the open block, or to the template
  when no condition line was read yet; the validator is called first.\<close>

definition variationLine :: "env \<Rightarrow> string \<Rightarrow> tstate \<Rightarrow> error + tstate" where
  "variationLine e item st =
     bindE (validateVariationItem e item) (\<lambda>ok.
       if inConditionalResponses st then
         (case conditionalResponseItem st of
            None \<Rightarrow> Inl TypeError
          | Some r \<Rightarrow>
              (let b = conditionObjs st ! r in
               if ok \<and> item \<notin> set (cr_variations b)
               then Inr (st\<lparr>conditionObjs :=
                           (conditionObjs st)[r := b\<lparr>cr_variations := cr_variations b @ [item]\<rparr>]\<rparr>)
               else Inr st))
       else
         (let c = cLGTemplate st; t = templateObjs st ! c in
          if ok \<and> item \<notin> set (variations t)
          then Inr (st\<lparr>templateObjs := (templateObjs st)[c := t\<lparr>variations := variations t @ [item]\<rparr>]\<rparr>)
          else Inr st))"

definition hasListDecoration :: "string \<Rightarrow> bool" where
  "hasListDecoration item =
     (startsWith ''-'' item \<or> startsWith ''*'' item \<or> startsWith ''+'' item)"

definition noListDecoration :: "string \<Rightarrow> error" where
  "noListDecoration item =
     Thrown NO_LIST_DECORATION_ON_VARIATION
       (''Template item: '' @ dquote @ item @ dquote
        @ '' does not have list decoration. Prefix line with '' @ dquote @ ''-'' @ dquote
        @ '' or '' @ dquote @ ''+'' @ dquote @ '' or '' @ dquote @ ''*'' @ dquote)"

text \<open>Lines 81 to 160, the callback of \<^verbatim>\<open>chunkSplitByLine.forEach\<close>.\<close>

definition processLine :: "env \<Rightarrow> tstate \<Rightarrow> string \<Rightarrow> error + tstate" where
  "processLine e st line =
     (let item = removeTemplateLinkReferences line;
          st1 = st\<lparr>entities := foldl detectEntity (entities st) (parseEntity e item)\<rparr>
      in
      if \<not> hasListDecoration item then Inl (noListDecoration item)
      else
        (let item = trim (drop 1 item) in
         if startsWith (CONDITION e) (trim item) then
           conditionLine e True (trim (replaceFirst (CONDITION e) [] item)) st1
         else if startsWith (DEFAULT e) (trim item) then
           conditionLine e False (trim (replaceFirst (DEFAULT e) (ELSE e) item)) st1
         else variationLine e item st1))"

section \<open>Template chunks\<close>

definition new_LGTemplate :: "string \<Rightarrow> LGTemplate" where
  "new_LGTemplate templateName = \<lparr>name = templateName, variations = [], conditionalResponses = []\<rparr>"

text \<open>Lines 59 to 79: look the template up by name when the list has templates, and
  create one when none was found or the one at hand has an empty name. The result holds
  the loop variables at the start of the body.\<close>

definition beginTemplate :: "string \<Rightarrow> LGObject \<Rightarrow> tstate" where
  "beginTemplate templateName ob =
     (let objs = templateObjs ob;
          found = (if LGTemplates ob \<noteq> [] then
                     (case filter (\<lambda>item. name (objs ! item) = templateName) (LGTemplates ob) of
                        r # _ \<Rightarrow> (False, Some r, objs)
                      | [] \<Rightarrow> (True, Some (length objs), objs @ [new_LGTemplate templateName]))
                   else (True, None, objs));
          push = fst found;
          objs1 = snd (snd found);
          created = (case fst (snd found) of
                       None \<Rightarrow> True
                     | Some r \<Rightarrow> name (objs1 ! r) = []);
          c = (case fst (snd found) of
                 None \<Rightarrow> length objs1
               | Some r \<Rightarrow> if created then length objs1 else r);
          objs2 = (if created then objs1 @ [new_LGTemplate templateName] else objs1)
      in \<lparr>LGTemplates = LGTemplates ob, entities = entities ob,
          templateObjs = objs2, conditionObjs = conditionObjs ob,
          cLGTemplate = c, pushAtEnd = push,
          inConditionalResponses = False, conditionalResponseItem = None\<rparr>)"

definition invalidTemplate :: "string \<Rightarrow> error" where
  "invalidTemplate n =
     Thrown INVALID_TEMPLATE
       (''Template '' @ dquote @ n @ dquote
        @ '' does not have any variations or conditional response definition'')"

text \<open>Lines 162 to 168: push the open block, commit the template, check that it is
  not empty.\<close>

definition commitTemplate :: "tstate \<Rightarrow> tstate" where
  "commitTemplate st =
     (if name (templateObjs st ! cLGTemplate st) \<noteq> [] \<and> pushAtEnd st
      then st\<lparr>LGTemplates := LGTemplates st @ [cLGTemplate st]\<rparr>
      else st)"

definition checkTemplate :: "tstate \<Rightarrow> error + LGObject" where
  "checkTemplate st =
     (let t = templateObjs st ! cLGTemplate st in
      if variations t = [] \<and> conditionalResponses t = []
      then Inl (invalidTemplate (name t))
      else Inr (LGObject.truncate st))"

definition endTemplate :: "tstate \<Rightarrow> error + LGObject" where
  "endTemplate st = bindE (flushPending st) (\<lambda>st1. checkTemplate (commitTemplate st1))"

text \<open>Lines 56 to 168: \<open>header\<close> is \<^verbatim>\<open>chunkSplitByLine[0]\<close>, \<open>body\<close> the lines left
  after \<^verbatim>\<open>splice(0,1)\<close>.\<close>

definition templateChunk :: "env \<Rightarrow> LGObject \<Rightarrow> string \<Rightarrow> string list \<Rightarrow> error + LGObject" where
  "templateChunk e ob header body =
     bindE (forEachE (processLine e) (beginTemplate (afterFirstSpace header) ob) body) endTemplate"

section \<open>File references and entity definitions\<close>

text \<open>The first match of \<^verbatim>\<open>/\(.*?\)/g\<close> in a line, \<open>None\<close> when
  \<^verbatim>\<open>match\<close> answers \<^verbatim>\<open>null\<close>.\<close>

fun firstParenMatch :: "string \<Rightarrow> string option" where
  "firstParenMatch [] = None"
| "firstParenMatch (c # cs) =
     (if c = CHR 0x28 then
        (case lazyToClose cs of
           Some (cap, rest) \<Rightarrow> Some ([CHR 0x28] @ cap @ [CHR 0x29])
         | None \<Rightarrow> firstParenMatch cs)
      else firstParenMatch cs)"

definition invalidFileRef :: "string \<Rightarrow> error" where
  "invalidFileRef header =
     Thrown INVALID_LG_FILE_REF (''[ERROR]: '' @ ''Invalid LU File Ref: '' @ header)"

text \<open>Lines 170 to 176. \<^verbatim>\<open>linkValueList[0]\<close> reads through \<^verbatim>\<open>null\<close> when the line
  has no match.\<close>

definition fileRefChunk :: "LGParsedObj \<Rightarrow> string \<Rightarrow> error + LGParsedObj" where
  "fileRefChunk p header =
     (case firstParenMatch (trim header) of
        None \<Rightarrow> Inl TypeError
      | Some m \<Rightarrow>
          (let linkValue = replaceFirst '')'' [] (replaceFirst ''('' [] m) in
           if linkValue = [] then Inl (invalidFileRef header)
           else Inr (p\<lparr>additionalFilesToParse := additionalFilesToParse p @ [linkValue]\<rparr>)))"

text \<open>Lines 185 to 189: the loop \<^verbatim>\<open>for(i = 1; i < n; i += 3)\<close> over the tokens
  behind the type, on the list from index \<open>i\<close> on; \<^verbatim>\<open>tokens[i+2]\<close> is
  \<^verbatim>\<open>undefined\<close> behind the end.\<close>

fun entityAttributesFrom :: "string list \<Rightarrow> (string \<times> string option) list" where
  "entityAttributesFrom (k # s # v # rest) = (k, Some v) # entityAttributesFrom rest"
| "entityAttributesFrom (k # rest) = [(k, None)]"
| "entityAttributesFrom [] = []"

text \<open>\<^verbatim>\<open>entityInCollection[0].entityType = ...\<close>: the first entity of that name.\<close>

fun setFirstEntityType :: "string \<Rightarrow> string \<Rightarrow> LGEntity list \<Rightarrow> LGEntity list" where
  "setFirstEntityType n ty [] = []"
| "setFirstEntityType n ty (x # xs) =
     (if e_name x = n then x\<lparr>entityType := Some ty\<rparr> # xs
      else x # setFirstEntityType n ty xs)"

definition invalidEntityDefinition :: "string \<Rightarrow> error" where
  "invalidEntityDefinition header =
     Thrown INVALID_ENTITY_DEFINITION
       (''Invalid entity definition for '' @ dquote @ header @ dquote)"

text \<open>Lines 178 to 197.\<close>

definition entityChunk :: "env \<Rightarrow> LGObject \<Rightarrow> string \<Rightarrow> error + LGObject" where
  "entityChunk e ob header =
     (case splitChar (CHR '':'') (replaceFirst (ENTITY e) [] header) of
        [n, d] \<Rightarrow>
          (case splitChar (CHR 0x20) (trim d) of
             [] \<Rightarrow> Inl TypeError
           | t # toks \<Rightarrow>
               (let entityName = trim n;
                    entityType = trim t;
                    newEntity = \<lparr>e_name = entityName, entityType = Some entityType,
                                 attributes = entityAttributesFrom toks\<rparr>
                in
                if filter (\<lambda>item. e_name item = entityName) (entities ob) \<noteq> []
                then Inr (ob\<lparr>entities :=
                            setFirstEntityType entityName (getEntityType e entityType) (entities ob)\<rparr>)
                else Inr (ob\<lparr>entities := entities ob @ [newEntity]\<rparr>)))
      | _ \<Rightarrow> Inl (invalidEntityDefinition header))"

section \<open>The parser\<close>

definition invalidInput :: "string \<Rightarrow> error" where
  "invalidInput chunk =
     Thrown INVALID_INPUT
       (''Unidentified template definition. Template definition must start with # <Template Name> :: ''
        @ [CHR 0x0A] @ chunk)"

text \<open>Lines 51 to 201, the callback of \<^verbatim>\<open>parsedFileContent.forEach\<close>. The parsed
  object has its \<open>LGObject\<close> from line 49 on; \<^verbatim>\<open>split\<close> gives at least one line.\<close>

definition toLG_chunk :: "env \<Rightarrow> LGParsedObj \<Rightarrow> string \<Rightarrow> error + LGParsedObj" where
  "toLG_chunk e p chunk0 =
     (let chunk = trim chunk0 in
      case (LGObject p, splitLines chunk) of
        (Some ob, header # body) \<Rightarrow>
          if startsWith (INTENT e) chunk then
            bindE (templateChunk e ob header body) (\<lambda>ob'. Inr (p\<lparr>LGObject := Some ob'\<rparr>))
          else if startsWith (FILEREF e) chunk then fileRefChunk p header
          else if startsWith (ENTITY e) chunk then
            bindE (entityChunk e ob header) (\<lambda>ob'. Inr (p\<lparr>LGObject := Some ob'\<rparr>))
          else Inl (invalidInput chunk)
      | _ \<Rightarrow> Inl TypeError)"

text \<open>The argument of \<^verbatim>\<open>toLG\<close>: \<^verbatim>\<open>null\<close>, \<^verbatim>\<open>undefined\<close>, a value that is not an
  array, or an array of chunks.\<close>

datatype jsInput = Null | Undefined | NotAnArray | Array "string list"

text \<open>The parsed object after line 49, \<^verbatim>\<open>retParserObj.LGObject = new LGObject()\<close>.\<close>

definition withLGObject :: LGParsedObj where
  "withLGObject = new_LGParsedObj\<lparr>LGObject := Some new_LGObject\<rparr>"

text \<open>Lines 44 to 204.\<close>

definition toLG :: "env \<Rightarrow> jsInput \<Rightarrow> error + LGParsedObj" where
  "toLG e parsedFileContent =
     (case parsedFileContent of
        Array chunks \<Rightarrow>
          if length chunks = 0 then Inr new_LGParsedObj
          else forEachE (toLG_chunk e) withLGObject chunks
      | _ \<Rightarrow> Inr new_LGParsedObj)"

section \<open>An instance of the collaborators\<close>

text \<open>
  Modelled from the spec: the markers of its table of grammar markers (\<^verbatim>\<open>#\<close> for a
  template header, the opening bracket for a file reference, \<^verbatim>\<open>$\<close> for an entity
  definition, \<^verbatim>\<open>IF:\<close> for a condition, \<^verbatim>\<open>ELSE:\<close> for the default branch), with
  validators that accept every text, an entity scanner that finds nothing and entity
  types stored as written. The general theorems below hold for every instance; this
  one runs the parser on concrete chunks.
\<close>

definition lgEnv :: env where
  "lgEnv = \<lparr>INTENT = ''#'', FILEREF = ''['', ENTITY = ''$'', CONDITION = ''IF:'',
            DEFAULT = ''ELSE:'', ELSE = ''Else'',
            parseEntity = (\<lambda>item. []),
            validateCondition = (\<lambda>cond requiresExpression. None),
            validateVariationItem = (\<lambda>item. Inr True),
            getEntityType = (\<lambda>ty. ty)\<rparr>"

text \<open>What a caller sees of the result: the templates behind the list of template
  references, each with its blocks.\<close>

definition templateView :: "LGObject \<Rightarrow> (string \<times> string list \<times> (string \<times> string list) list) list" where
  "templateView ob =
     map (\<lambda>r. let t = templateObjs ob ! r in
               (name t, variations t,
                map (\<lambda>b. (condition (conditionObjs ob ! b), cr_variations (conditionObjs ob ! b)))
                  (conditionalResponses t)))
       (LGTemplates ob)"

section \<open>Link references, in the words of the spec\<close>

text \<open>
  The spec, on the link references of a body line: every occurrence of the pattern
  \<^verbatim>\<open>](...)\<close> collapses to \<^verbatim>\<open>]\<close>, and all other text of the line stays as it is. A
  link target ends at the first closing parenthesis and does not span lines.
\<close>

function collapseLinks :: "string \<Rightarrow> string" where
  "collapseLinks [] = []"
| "collapseLinks (c # cs) =
     (if c = CHR 0x5D \<and> startsWith [CHR 0x28] cs then
        (case lazyToClose (drop 1 cs) of
           Some (target, rest) \<Rightarrow> c # collapseLinks rest
         | None \<Rightarrow> c # collapseLinks cs)
      else c # collapseLinks cs)"
  by pat_completeness auto
termination
proof (relation "measure length")
  show "wf (measure length)" by simp
next
  fix c :: char and cs x2 x y
  assume "lazyToClose (drop 1 cs) = Some x2" and "(x, y) = x2"
  then have "lazyToClose (drop 1 cs) = Some (x, y)" by simp
  from lazyToClose_shorter [OF this] have "length y < length (drop 1 cs)" .
  then show "(y, c # cs) \<in> measure length" by simp
qed simp_all

text \<open>The text behind the last link reference of a line; \<open>None\<close> when the line has
  no link reference.\<close>

function textBehindLinks :: "string \<Rightarrow> string option" where
  "textBehindLinks [] = None"
| "textBehindLinks (c # cs) =
     (if c = CHR 0x5D \<and> startsWith [CHR 0x28] cs then
        (case lazyToClose (drop 1 cs) of
           Some (target, rest) \<Rightarrow>
             (case textBehindLinks rest of None \<Rightarrow> Some rest | Some t \<Rightarrow> Some t)
         | None \<Rightarrow> textBehindLinks cs)
      else textBehindLinks cs)"
  by pat_completeness auto
termination
proof (relation "measure length")
  show "wf (measure length)" by simp
next
  fix c :: char and cs x2 x y
  assume "lazyToClose (drop 1 cs) = Some x2" and "(x, y) = x2"
  then have "lazyToClose (drop 1 cs) = Some (x, y)" by simp
  from lazyToClose_shorter [OF this] have "length y < length (drop 1 cs)" .
  then show "(y, c # cs) \<in> measure length" by simp
qed simp_all

text \<open>A line has no text behind its link references when it has no link reference, or
  ends with one.\<close>

definition noTextBehindLinks :: "string \<Rightarrow> bool" where
  "noTextBehindLinks line = (textBehindLinks line = None \<or> textBehindLinks line = Some [])"

section \<open>The merge of condition lines, in the words of the spec\<close>

text \<open>
  The payload of a body line, in the words of the spec: the link references of the
  line are collapsed, the list marker comes after white space, and the payload is what
  follows the marker, without the white space around it.
\<close>

definition payloadOf :: "string \<Rightarrow> string" where
  "payloadOf line = trim (drop 1 (dropWhile isWhitespace (collapseLinks line)))"

text \<open>
  The kinds of body line: a condition line (or a default line) with its normalised
  condition, which is the payload without the condition marker (with the default
  marker replaced by the text that stands for the default branch), or a plain line
  with its payload.
\<close>

datatype lineKind = ConditionLine string | PlainLine string

definition kindOf :: "env \<Rightarrow> string \<Rightarrow> lineKind" where
  "kindOf e item =
     (if startsWith (CONDITION e) (trim item) then
        ConditionLine (trim (replaceFirst (CONDITION e) [] item))
      else if startsWith (DEFAULT e) (trim item) then
        ConditionLine (trim (replaceFirst (DEFAULT e) (ELSE e) item))
      else PlainLine item)"

definition classify :: "env \<Rightarrow> string \<Rightarrow> lineKind" where
  "classify e line = kindOf e (payloadOf line)"

text \<open>A plain line is kept when the validator answers true.\<close>

definition accepted :: "env \<Rightarrow> string \<Rightarrow> bool" where
  "accepted e item = (validateVariationItem e item = Inr True)"

text \<open>\<^verbatim>\<open>if(!xs.includes(x)) xs.push(x)\<close>: a list without duplicates grows at its
  end.\<close>

definition addVariation :: "string list \<Rightarrow> string \<Rightarrow> string list" where
  "addVariation vs v = (if v \<in> set vs then vs else vs @ [v])"

text \<open>A block is the pair of a condition and its variations.\<close>

type_synonym block = "string \<times> string list"

text \<open>
  The spec, on a condition line: if a block of the template has this normalised
  condition it is reused, otherwise a new block is started; on a plain line: the
  payload, if it is accepted and not present, is appended to the open block. The state
  is the list of blocks and the condition of the open block.
\<close>

fun specStep :: "env \<Rightarrow> block list \<times> string option \<Rightarrow> lineKind \<Rightarrow> block list \<times> string option" where
  "specStep e (bs, cur) (ConditionLine c) =
     (if c \<in> set (map fst bs) then bs else bs @ [(c, [])], Some c)"
| "specStep e (bs, None) (PlainLine v) = (bs, None)"
| "specStep e (bs, Some c) (PlainLine v) =
     (if accepted e v
      then map (\<lambda>b. if fst b = c then (fst b, addVariation (snd b) v) else b) bs
      else bs, Some c)"

text \<open>
  The claim, on a whole body: a section is a condition line with the accepted plain
  lines that follow it. Sections of one condition merge into one block, whose
  variations are those of all its sections in order, each kept once; the blocks stand in
  the order in which their conditions were first met. \<open>mergedInto bs secs\<close> is the
  result for a template that starts with the blocks \<open>bs\<close>.
\<close>

fun addLine :: "env \<Rightarrow> block list \<Rightarrow> lineKind \<Rightarrow> block list" where
  "addLine e secs (ConditionLine c) = secs @ [(c, [])]"
| "addLine e secs (PlainLine v) =
     (if secs \<noteq> [] \<and> accepted e v
      then butlast secs @ [(fst (last secs), snd (last secs) @ [v])]
      else secs)"

definition sectionsOf :: "env \<Rightarrow> lineKind list \<Rightarrow> block list" where
  "sectionsOf e kinds = foldl (addLine e) [] kinds"

definition variationsIn :: "block list \<Rightarrow> string \<Rightarrow> string list" where
  "variationsIn bs c = (case map_of bs c of None \<Rightarrow> [] | Some vs \<Rightarrow> vs)"

definition mergedInto :: "block list \<Rightarrow> block list \<Rightarrow> block list" where
  "mergedInto bs secs =
     map (\<lambda>c. (c, foldl addVariation (variationsIn bs c)
                     (concat (map snd (filter (\<lambda>s. fst s = c) secs)))))
       (foldl addVariation (map fst bs) (map fst secs))"

definition lastCondition :: "block list \<Rightarrow> string option" where
  "lastCondition secs = (if secs = [] then None else Some (fst (last secs)))"

section \<open>Bodies of plain variation lines\<close>

text \<open>A plain line has a list marker as its first character, is neither a condition
  line nor a default line, has no text behind its link references, and the validator
  answers for its payload instead of throwing.\<close>

definition plainLine :: "env \<Rightarrow> string \<Rightarrow> bool" where
  "plainLine e line =
     (hasListDecoration line
      \<and> noTextBehindLinks line
      \<and> classify e line = PlainLine (payloadOf line)
      \<and> \<not> isl (validateVariationItem e (payloadOf line)))"

definition plainBody :: "env \<Rightarrow> string list \<Rightarrow> bool" where
  "plainBody e body = list_all (plainLine e) body"

text \<open>The payloads of a body that the validator answers true for, in order.\<close>

definition acceptedPayloads :: "env \<Rightarrow> string list \<Rightarrow> string list" where
  "acceptedPayloads e body = filter (accepted e) (map payloadOf body)"

section \<open>The blocks behind the references\<close>

text \<open>The blocks of the template at hand, the block that is open but not pushed yet,
  and the condition of the open block.\<close>

definition blockView :: "'a LGObject_scheme \<Rightarrow> nat \<Rightarrow> block" where
  "blockView ob r = (condition (conditionObjs ob ! r), cr_variations (conditionObjs ob ! r))"

definition listedBlocks :: "tstate \<Rightarrow> block list" where
  "listedBlocks st =
     map (blockView st) (conditionalResponses (templateObjs st ! cLGTemplate st))"

definition pendingBlocks :: "tstate \<Rightarrow> block list" where
  "pendingBlocks st =
     (if inConditionalResponses st \<and> pushAtEnd st
      then map (blockView st) (case conditionalResponseItem st of None \<Rightarrow> [] | Some r \<Rightarrow> [r])
      else [])"

definition openCondition :: "tstate \<Rightarrow> string option" where
  "openCondition st =
     (if inConditionalResponses st
      then map_option (\<lambda>r. condition (conditionObjs st ! r)) (conditionalResponseItem st)
      else None)"

definition absOf :: "tstate \<Rightarrow> block list \<times> string option" where
  "absOf st = (listedBlocks st @ pendingBlocks st, openCondition st)"

section \<open>Invariants of the body loop\<close>

text \<open>While a condition is open, the item is set: \<open>inConditionalResponses\<close> is only
  written behind an assignment of \<open>conditionalResponseItem\<close>.\<close>

definition itemSet :: "tstate \<Rightarrow> bool" where
  "itemSet st = (inConditionalResponses st \<longrightarrow> conditionalResponseItem st \<noteq> None)"

text \<open>
  The template at hand is allocated, its blocks are allocated and have distinct
  conditions; the open block is allocated, and it is a block of the template unless it
  is still to be pushed, in which case its condition is new to the template.
\<close>

definition blocksWF :: "tstate \<Rightarrow> bool" where
  "blocksWF st =
     (let crs = conditionalResponses (templateObjs st ! cLGTemplate st) in
      cLGTemplate st < length (templateObjs st)
      \<and> (\<forall>r \<in> set crs. r < length (conditionObjs st))
      \<and> distinct (map (\<lambda>r. condition (conditionObjs st ! r)) crs)
      \<and> (inConditionalResponses st \<longrightarrow>
           (\<exists>r. conditionalResponseItem st = Some r \<and> r < length (conditionObjs st)
              \<and> (if pushAtEnd st
                  then condition (conditionObjs st ! r)
                         \<notin> set (map (\<lambda>r. condition (conditionObjs st ! r)) crs)
                  else r \<in> set crs))))"

text \<open>What a body line keeps: the template at hand and the template list, every
  other template object, and the condition of every block allocated before.\<close>

definition keeps :: "tstate \<Rightarrow> tstate \<Rightarrow> bool" where
  "keeps st st' =
     (cLGTemplate st' = cLGTemplate st \<and> LGTemplates st' = LGTemplates st
      \<and> length (templateObjs st') = length (templateObjs st)
      \<and> (\<forall>i. i \<noteq> cLGTemplate st \<longrightarrow> templateObjs st' ! i = templateObjs st ! i)
      \<and> length (conditionObjs st) \<le> length (conditionObjs st')
      \<and> (\<forall>r < length (conditionObjs st).
            condition (conditionObjs st' ! r) = condition (conditionObjs st ! r)))"

text \<open>Every listed template is allocated, with allocated blocks of distinct
  conditions.\<close>

definition templateWF :: "'a LGObject_scheme \<Rightarrow> nat \<Rightarrow> bool" where
  "templateWF ob c =
     (c < length (templateObjs ob)
      \<and> (\<forall>r \<in> set (conditionalResponses (templateObjs ob ! c)). r < length (conditionObjs ob))
      \<and> distinct (map (\<lambda>r. condition (conditionObjs ob ! r))
            (conditionalResponses (templateObjs ob ! c))))"

definition objWF :: "'a LGObject_scheme \<Rightarrow> bool" where
  "objWF ob = (\<forall>c \<in> set (LGTemplates ob). templateWF ob c)"

section \<open>Basic facts\<close>

lemma bindE_Inl: "bindE (Inl x) f = Inl x"
  by (simp add: bindE_def)

lemma bindE_Inr: "bindE (Inr x) f = f x"
  by (simp add: bindE_def)

lemma bindE_eq_Inr: "(bindE m f = Inr y) = (\<exists>x. m = Inr x \<and> f x = Inr y)"
  by (cases m) (simp_all add: bindE_def)

lemma forEachE_append:
  "forEachE f s (xs @ ys) = bindE (forEachE f s xs) (\<lambda>s'. forEachE f s' ys)"
  by (induction xs arbitrary: s) (simp_all add: bindE_def split: sum.splits)

lemma forEachE_stops:
  "forEachE f s xs = Inr s' \<Longrightarrow> f s' x = Inl err \<Longrightarrow> forEachE f s (xs @ x # ys) = Inl err"
  by (simp add: forEachE_append bindE_def)

lemma forEachE_invariant:
  assumes "forEachE f s xs = Inr s'" and "P s"
    and "\<And>a x b. P a \<Longrightarrow> f a x = Inr b \<Longrightarrow> P b"
  shows "P s'"
  using assms(1,2)
proof (induction xs arbitrary: s)
  case Nil
  then show ?case by simp
next
  case (Cons x xs)
  from Cons.prems(1) obtain m where m: "f s x = Inr m" and rest: "forEachE f m xs = Inr s'"
    by (auto simp: bindE_eq_Inr)
  from assms(3) [OF Cons.prems(2) m] have "P m" .
  with rest show ?case by (rule Cons.IH)
qed

lemma splitLines_nonempty: "splitLines s \<noteq> []"
  by (induction s rule: splitLines.induct) (auto split: list.splits)

lemma splitChar_nonempty: "splitChar sep s \<noteq> []"
  by (induction s) (auto split: list.splits)

lemma toLG_Array:
  "cs \<noteq> [] \<Longrightarrow> toLG e (Array cs) = forEachE (toLG_chunk e) withLGObject cs"
  by (simp add: toLG_def)

lemma toLG_chunk_keeps_LGObject:
  "toLG_chunk e p chunk = Inr p' \<Longrightarrow> LGObject p' \<noteq> None"
  by (auto simp: toLG_chunk_def fileRefChunk_def Let_def bindE_eq_Inr
      split: option.splits list.splits if_splits)

lemma forEachE_keeps_LGObject:
  "forEachE (toLG_chunk e) p cs = Inr p' \<Longrightarrow> LGObject p \<noteq> None \<Longrightarrow> LGObject p' \<noteq> None"
  by (erule forEachE_invariant) (auto dest: toLG_chunk_keeps_LGObject)

lemma withLGObject_LGObject: "LGObject withLGObject = Some new_LGObject"
  by (simp add: withLGObject_def new_LGParsedObj_def)

section \<open>Inputs without chunks\<close>

text \<open>
  Claim C10. Given \<^verbatim>\<open>null\<close>, \<^verbatim>\<open>undefined\<close>, a value that is not an array or an empty
  array, \<open>toLG\<close> returns a fresh parsed object without throwing: its \<open>LGObject\<close> is not
  set and it names no file. Only an array with at least one chunk gets an \<open>LGObject\<close>:
  the loop over its chunks starts from a parsed object whose \<open>LGObject\<close> has no
  template and no entity, and whatever \<open>toLG\<close> then returns has an \<open>LGObject\<close>.
\<close>

theorem toLG_without_chunks:
  "toLG e Null = Inr new_LGParsedObj \<and> toLG e Undefined = Inr new_LGParsedObj
   \<and> toLG e NotAnArray = Inr new_LGParsedObj \<and> toLG e (Array []) = Inr new_LGParsedObj
   \<and> LGObject new_LGParsedObj = None \<and> additionalFilesToParse new_LGParsedObj = []
   \<and> (\<forall>c cs. toLG e (Array (c # cs)) = forEachE (toLG_chunk e) withLGObject (c # cs))
   \<and> (\<exists>ob. LGObject withLGObject = Some ob \<and> LGTemplates ob = [] \<and> entities ob = [])
   \<and> (\<forall>c cs p. toLG e (Array (c # cs)) = Inr p \<longrightarrow> LGObject p \<noteq> None)"
proof -
  have "LGObject p \<noteq> None" if "toLG e (Array (c # cs)) = Inr p" for c cs p
  proof -
    from that have "forEachE (toLG_chunk e) withLGObject (c # cs) = Inr p"
      by (simp add: toLG_def)
    then show ?thesis
      by (rule forEachE_keeps_LGObject) (simp add: withLGObject_LGObject)
  qed
  then show ?thesis
    by (simp add: toLG_def new_LGParsedObj_def withLGObject_def new_LGObject_def)
qed

theorem toLG_without_chunks_witness:
  "toLG lgEnv (Array []) = Inr new_LGParsedObj
   \<and> toLG lgEnv (Array [''[ref](other.lg)'']) =
       Inr \<lparr>LGObject = Some new_LGObject, additionalFilesToParse = [''other.lg'']\<rparr>
   \<and> LGObject \<lparr>LGObject = Some new_LGObject, additionalFilesToParse = [''other.lg'']\<rparr> \<noteq> None"
proof -
  have run: "toLG lgEnv (Array [''[ref](other.lg)'']) =
      Inr \<lparr>LGObject = Some new_LGObject, additionalFilesToParse = [''other.lg'']\<rparr>"
    by code_simp
  with toLG_without_chunks [of lgEnv] show ?thesis
    by simp
qed

section \<open>Template link references are stripped\<close>

text \<open>
  Claim C4. Stripping the link references of a line should replace every \<^verbatim>\<open>](...)\<close> by
  \<^verbatim>\<open>]\<close> and keep the rest of the line. The loop of \<open>removeTemplateLinkReferences\<close>
  stops one piece early: on the line \<^verbatim>\<open>- see [a](b) now\<close> the text behind the last
  link reference is lost.
\<close>

theorem removeTemplateLinkReferences_loses_tail:
  "removeTemplateLinkReferences ''- see [a](b) now'' = ''- see [a]''"
  by code_simp

text \<open>The other parts of the claim hold: a line without a closing bracket, and more
  generally a line that the pattern does not match, is returned as it is, and link
  references are collapsed when nothing follows the last of them.\<close>

lemma splitLinksFrom_no_bracket:
  "CHR 0x5D \<notin> set s \<Longrightarrow> splitLinksFrom acc s = [acc @ s]"
  by (induction s arbitrary: acc) auto

lemma removeTemplateLinkReferences_no_bracket:
  "CHR 0x5D \<notin> set item \<Longrightarrow> removeTemplateLinkReferences item = item"
  by (simp add: removeTemplateLinkReferences_def splitLinks_def splitLinksFrom_no_bracket)

lemma removeTemplateLinkReferences_unmatched:
  "length (splitLinks item) = 1 \<Longrightarrow> removeTemplateLinkReferences item = item"
  by (simp add: removeTemplateLinkReferences_def)

lemma link_at_end_is_collapsed:
  "removeTemplateLinkReferences ''- see [a](b) and [c](d)'' = ''- see [a] and [c]''"
  by code_simp

text \<open>
  In general the stripped line is the line with its link references collapsed, short
  of the text behind the last link reference: the two agree on the lines that have no
  text there.
\<close>

lemma splitLinksFrom_nonempty: "splitLinksFrom acc s \<noteq> []"
  by (induction acc s rule: splitLinksFrom.induct) (auto split: option.splits)

lemma split_collapse:
  "joinLabels (splitLinksFrom acc s) @ last (splitLinksFrom acc s) = acc @ collapseLinks s"
proof (induction acc s rule: splitLinksFrom.induct)
  case (1 acc)
  then show ?case by simp
next
  case (2 acc c cs)
  show ?case
  proof (cases "c = CHR 0x5D \<and> startsWith [CHR 0x28] cs")
    case True
    show ?thesis
    proof (cases "lazyToClose (drop 1 cs)")
      case None
      with True 2(1) show ?thesis by simp
    next
      case (Some a)
      obtain cap rest where a: "a = (cap, rest)" by (cases a)
      from 2(2) [OF True Some [unfolded a] refl]
      have "joinLabels (splitLinksFrom [] rest) @ last (splitLinksFrom [] rest) = collapseLinks rest"
        by simp
      with True Some a show ?thesis
        by (simp add: splitLinksFrom_nonempty)
    qed
  next
    case False
    with 2(3) show ?thesis by auto
  qed
qed

lemma split_unmatched:
  "textBehindLinks s = None \<Longrightarrow> splitLinksFrom acc s = [acc @ s]"
  by (induction acc s rule: splitLinksFrom.induct) (auto split: option.splits if_splits)

lemma split_matched:
  "textBehindLinks s = Some t \<Longrightarrow>
   last (splitLinksFrom acc s) = t \<and> length (splitLinksFrom acc s) \<noteq> 1"
proof (induction acc s arbitrary: t rule: splitLinksFrom.induct)
  case (1 acc)
  then show ?case by simp
next
  case (2 acc c cs)
  show ?case
  proof (cases "c = CHR 0x5D \<and> startsWith [CHR 0x28] cs")
    case True
    show ?thesis
    proof (cases "lazyToClose (drop 1 cs)")
      case None
      with True 2(1) 2(4) show ?thesis by simp
    next
      case (Some a)
      obtain cap rest where a: "a = (cap, rest)" by (cases a)
      note ih = 2(2) [OF True Some [unfolded a] refl]
      show ?thesis
      proof (cases "textBehindLinks rest")
        case None
        with True Some a 2(4) have "t = rest" by simp
        with True Some a split_unmatched [OF None, of "[]"] show ?thesis by simp
      next
        case (Some u)
        with True \<open>lazyToClose (drop 1 cs) = Some a\<close> a 2(4) have "t = u" by simp
        with True \<open>lazyToClose (drop 1 cs) = Some a\<close> a ih [OF Some] show ?thesis
          by (simp add: splitLinksFrom_nonempty)
      qed
    qed
  next
    case False
    with 2(3) 2(4) show ?thesis by auto
  qed
qed

lemma stripped_line_lacks_tail:
  "removeTemplateLinkReferences l @ (case textBehindLinks l of None \<Rightarrow> [] | Some t \<Rightarrow> t)
     = collapseLinks l"
proof (cases "textBehindLinks l")
  case None
  from split_unmatched [OF None, of "[]"] have s: "splitLinks l = [l]"
    by (simp add: splitLinks_def)
  with split_collapse [of "[]" l] have "collapseLinks l = l"
    by (simp add: splitLinks_def)
  with None s show ?thesis by (simp add: removeTemplateLinkReferences_def)
next
  case (Some t)
  from split_matched [OF Some, of "[]"] have "last (splitLinks l) = t" "length (splitLinks l) \<noteq> 1"
    by (simp_all add: splitLinks_def)
  with split_collapse [of "[]" l] Some show ?thesis
    by (simp add: removeTemplateLinkReferences_def splitLinks_def)
qed

lemma strip_collapse:
  "noTextBehindLinks l \<Longrightarrow> removeTemplateLinkReferences l = collapseLinks l"
  using stripped_line_lacks_tail [of l] by (auto simp: noTextBehindLinks_def)

lemma collapseLinks_unmatched:
  "textBehindLinks l = None \<Longrightarrow> collapseLinks l = l"
  using stripped_line_lacks_tail [of l] split_unmatched [of l "[]"]
  by (simp add: removeTemplateLinkReferences_def splitLinks_def)

section \<open>Chunks that are not recognised\<close>

text \<open>
  Claim C9. When the chunks before it were read without error, a chunk whose trimmed
  text begins with none of the markers for a template, a file reference or an entity
  definition makes \<open>toLG\<close> throw \<open>INVALID_INPUT\<close>, with a text that ends with the
  trimmed chunk. The chunks behind it are not read.
\<close>

theorem unrecognised_chunk_throws:
  assumes "forEachE (toLG_chunk e) withLGObject pre = Inr p"
    and "\<not> startsWith (INTENT e) (trim chunk)"
    and "\<not> startsWith (FILEREF e) (trim chunk)"
    and "\<not> startsWith (ENTITY e) (trim chunk)"
  shows "toLG e (Array (pre @ chunk # post)) =
           Inl (Thrown INVALID_INPUT
             (''Unidentified template definition. Template definition must start with # <Template Name> :: ''
              @ [CHR 0x0A] @ trim chunk))"
proof -
  from assms(1) have "LGObject p \<noteq> None"
    by (rule forEachE_keeps_LGObject) (simp add: withLGObject_LGObject)
  then obtain ob where ob: "LGObject p = Some ob" by auto
  obtain header body where ls: "splitLines (trim chunk) = header # body"
    using splitLines_nonempty [of "trim chunk"] by (cases "splitLines (trim chunk)") auto
  have "toLG_chunk e p chunk = Inl (invalidInput (trim chunk))"
    using assms(2-4) ob ls by (simp add: toLG_chunk_def)
  with assms(1) have "forEachE (toLG_chunk e) withLGObject (pre @ chunk # post)
      = Inl (invalidInput (trim chunk))"
    by (rule forEachE_stops)
  then show ?thesis
    by (simp add: toLG_Array invalidInput_def)
qed

theorem unrecognised_chunk_throws_witness:
  "forEachE (toLG_chunk lgEnv) withLGObject [''[ref](other.lg)''] =
     Inr \<lparr>LGObject = Some new_LGObject, additionalFilesToParse = [''other.lg'']\<rparr>
   \<and> \<not> startsWith (INTENT lgEnv) (trim '' hello '')
   \<and> \<not> startsWith (FILEREF lgEnv) (trim '' hello '')
   \<and> \<not> startsWith (ENTITY lgEnv) (trim '' hello '')
   \<and> toLG lgEnv (Array [''[ref](other.lg)'', '' hello '', ''# T'']) =
       Inl (Thrown INVALID_INPUT
         ''Unidentified template definition. Template definition must start with # <Template Name> :: \<newline>hello'')"
proof -
  have a: "forEachE (toLG_chunk lgEnv) withLGObject [''[ref](other.lg)''] =
     Inr \<lparr>LGObject = Some new_LGObject, additionalFilesToParse = [''other.lg'']\<rparr>"
    by code_simp
  have b: "\<not> startsWith (INTENT lgEnv) (trim '' hello '')" by code_simp
  have c: "\<not> startsWith (FILEREF lgEnv) (trim '' hello '')" by code_simp
  have d: "\<not> startsWith (ENTITY lgEnv) (trim '' hello '')" by code_simp
  have t: "trim '' hello '' = ''hello''" by code_simp
  from unrecognised_chunk_throws [OF a b c d, of "[''# T'']"] a b c d t show ?thesis
    by simp
qed

section \<open>Lines without a list decoration\<close>

lemma hasListDecoration_Nil: "\<not> hasListDecoration []"
  by (simp add: hasListDecoration_def startsWith_def)

lemma hasListDecoration_Cons:
  "hasListDecoration (c # cs) = (c = CHR ''-'' \<or> c = CHR ''*'' \<or> c = CHR ''+'')"
  by (auto simp: hasListDecoration_def startsWith_def)

lemma dropWhile_decorated:
  "hasListDecoration s \<Longrightarrow> dropWhile isWhitespace s = s"
  by (cases s) (auto simp: hasListDecoration_Cons hasListDecoration_Nil isWhitespace_def)

lemma splitLinksFrom_head: "\<exists>p ps. splitLinksFrom acc s = (acc @ p) # ps"
proof (induction acc s rule: splitLinksFrom.induct)
  case (1 acc)
  then show ?case by simp
next
  case (2 acc c cs)
  show ?case
  proof (cases "c = CHR 0x5D \<and> startsWith [CHR 0x28] cs")
    case True
    show ?thesis
    proof (cases "lazyToClose (drop 1 cs)")
      case None
      with True 2(1) obtain p ps where "splitLinksFrom (acc @ [c]) cs = ((acc @ [c]) @ p) # ps"
        by blast
      with True None show ?thesis by simp
    next
      case (Some a)
      with True show ?thesis by (cases a) simp
    qed
  next
    case False
    with 2(3) obtain p ps where "splitLinksFrom (acc @ [c]) cs = ((acc @ [c]) @ p) # ps"
      by blast
    with False show ?thesis by auto
  qed
qed

lemma joinLabels_first:
  "ps \<noteq> [] \<Longrightarrow> \<exists>r. joinLabels ((c # p) # ps) = c # r"
  by (cases ps) simp_all

lemma removeTemplateLinkReferences_first:
  "\<exists>r. removeTemplateLinkReferences (c # cs) = c # r"
proof (cases "c = CHR 0x5D \<and> startsWith [CHR 0x28] cs \<and> lazyToClose (drop 1 cs) \<noteq> None")
  case True
  then obtain cap rest where "lazyToClose (drop 1 cs) = Some (cap, rest)" by auto
  with True obtain ps where sp: "splitLinks (c # cs) = [] # cap # ps"
    by (simp add: splitLinks_def)
  with True show ?thesis
    by (simp add: removeTemplateLinkReferences_def)
next
  case False
  then have "splitLinks (c # cs) = splitLinksFrom [c] cs"
    by (auto simp: splitLinks_def split: option.splits)
  moreover obtain p ps where "splitLinksFrom [c] cs = ([c] @ p) # ps"
    using splitLinksFrom_head by blast
  ultimately have sp: "splitLinks (c # cs) = (c # p) # ps" by simp
  show ?thesis
  proof (cases ps)
    case Nil
    with sp show ?thesis by (simp add: removeTemplateLinkReferences_def)
  next
    case (Cons q qs)
    with sp show ?thesis by (simp add: removeTemplateLinkReferences_def)
  qed
qed

lemma removeTemplateLinkReferences_Nil: "removeTemplateLinkReferences [] = []"
  by (simp add: removeTemplateLinkReferences_def splitLinks_def)

lemma hasListDecoration_stripped:
  "hasListDecoration (removeTemplateLinkReferences l) = hasListDecoration l"
proof (cases l)
  case Nil
  then show ?thesis by (simp add: removeTemplateLinkReferences_Nil)
next
  case (Cons c cs)
  obtain r where "removeTemplateLinkReferences (c # cs) = c # r"
    using removeTemplateLinkReferences_first by blast
  with Cons show ?thesis by (simp add: hasListDecoration_Cons)
qed

lemma processLine_undecorated:
  "\<not> hasListDecoration l \<Longrightarrow>
   processLine e st l = Inl (noListDecoration (removeTemplateLinkReferences l))"
  by (simp add: processLine_def Let_def hasListDecoration_stripped)

text \<open>
  In a template chunk, when the body lines before it were read without error, a body
  line whose first character is none of \<^verbatim>\<open>-\<close>, \<^verbatim>\<open>*\<close> and \<^verbatim>\<open>+\<close> makes the parser throw
  \<open>NO_LIST_DECORATION_ON_VARIATION\<close>, whatever lines follow: none of them is read.
  The text of the error quotes an item. For a line that has no text behind its link
  references the item is the line with its link references collapsed, which is the
  line itself when it has no link reference.
\<close>

lemma undecorated_line_throws:
  assumes "LGObject p = Some ob"
    and "startsWith (INTENT e) (trim chunk)"
    and "splitLines (trim chunk) = header # pre @ l # post"
    and "\<not> isl (forEachE (processLine e) (beginTemplate (afterFirstSpace header) ob) pre)"
    and "\<not> hasListDecoration l"
  shows "\<exists>item. toLG_chunk e p chunk =
             Inl (Thrown NO_LIST_DECORATION_ON_VARIATION
               (''Template item: '' @ dquote @ item @ dquote
                @ '' does not have list decoration. Prefix line with '' @ dquote @ ''-'' @ dquote
                @ '' or '' @ dquote @ ''+'' @ dquote @ '' or '' @ dquote @ ''*'' @ dquote))
           \<and> (noTextBehindLinks l \<longrightarrow> item = collapseLinks l)
           \<and> (textBehindLinks l = None \<longrightarrow> item = l)"
proof -
  let ?item = "removeTemplateLinkReferences l"
  from assms(4) obtain st where
    "forEachE (processLine e) (beginTemplate (afterFirstSpace header) ob) pre = Inr st"
    by (cases "forEachE (processLine e) (beginTemplate (afterFirstSpace header) ob) pre") auto
  then have "forEachE (processLine e) (beginTemplate (afterFirstSpace header) ob) (pre @ l # post)
      = Inl (noListDecoration ?item)"
    using processLine_undecorated [OF assms(5)] by (rule forEachE_stops)
  then have "templateChunk e ob header (pre @ l # post) = Inl (noListDecoration ?item)"
    by (simp add: templateChunk_def bindE_Inl)
  with assms(1-3) have "toLG_chunk e p chunk = Inl (noListDecoration ?item)"
    by (simp add: toLG_chunk_def bindE_Inl)
  then have t: "toLG_chunk e p chunk =
             Inl (Thrown NO_LIST_DECORATION_ON_VARIATION
               (''Template item: '' @ dquote @ ?item @ dquote
                @ '' does not have list decoration. Prefix line with '' @ dquote @ ''-'' @ dquote
                @ '' or '' @ dquote @ ''+'' @ dquote @ '' or '' @ dquote @ ''*'' @ dquote))"
    by (simp only: noListDecoration_def)
  have c: "noTextBehindLinks l \<longrightarrow> ?item = collapseLinks l"
    by (simp add: strip_collapse)
  have u: "textBehindLinks l = None \<longrightarrow> ?item = l"
    by (simp add: strip_collapse noTextBehindLinks_def collapseLinks_unmatched)
  from t c u show ?thesis
    by (intro exI conjI)
qed

lemma undecorated_line_throws_example:
  "toLG_chunk lgEnv withLGObject ''# T\<newline>- hi\<newline>hello\<newline>- x'' =
     Inl (Thrown NO_LIST_DECORATION_ON_VARIATION
       (''Template item: '' @ dquote @ ''hello'' @ dquote
        @ '' does not have list decoration. Prefix line with '' @ dquote @ ''-'' @ dquote
        @ '' or '' @ dquote @ ''+'' @ dquote @ '' or '' @ dquote @ ''*'' @ dquote))"
proof -
  have a: "LGObject withLGObject = Some new_LGObject"
    by (rule withLGObject_LGObject)
  have b: "startsWith (INTENT lgEnv) (trim ''# T\<newline>- hi\<newline>hello\<newline>- x'')"
    by code_simp
  have c: "splitLines (trim ''# T\<newline>- hi\<newline>hello\<newline>- x'') = ''# T'' # [''- hi''] @ ''hello'' # [''- x'']"
    by code_simp
  have d: "\<not> isl (forEachE (processLine lgEnv) (beginTemplate (afterFirstSpace ''# T'') new_LGObject) [''- hi''])"
    by code_simp
  have f: "\<not> hasListDecoration ''hello''"
    by code_simp
  have g: "textBehindLinks ''hello'' = None"
    by code_simp
  from undecorated_line_throws [OF a b c d f] g show ?thesis
    by auto
qed

text \<open>
  Claim C5. A body line has to begin with a list marker after white space, and the
  error for a line that does not should name that line. The parser throws
  \<open>NO_LIST_DECORATION_ON_VARIATION\<close> for such a line and reads no line behind it, but
  the text of the error quotes the line as \<open>removeTemplateLinkReferences\<close> left it:
  for the undecorated line \<^verbatim>\<open>see [a](b) now\<close> it quotes \<^verbatim>\<open>see [a]\<close>, without the text
  behind the link reference.
\<close>

theorem undecorated_line_not_named:
  "toLG lgEnv (Array [''# T\<newline>- hi\<newline>see [a](b) now\<newline>- ho'']) =
     Inl (Thrown NO_LIST_DECORATION_ON_VARIATION
       (''Template item: '' @ dquote @ ''see [a]'' @ dquote
        @ '' does not have list decoration. Prefix line with '' @ dquote @ ''-'' @ dquote
        @ '' or '' @ dquote @ ''+'' @ dquote @ '' or '' @ dquote @ ''*'' @ dquote))"
  by code_simp

text \<open>
  The test for the list marker is made on the first character of the line as it
  stands. A line that begins with a list marker after white space, here a tab followed
  by \<^verbatim>\<open>- hi\<close>, is refused as a line without list decoration.
\<close>

lemma indented_marker_line_throws:
  "toLG lgEnv (Array [''# T\<newline>'' @ [CHR 0x09] @ ''- hi'']) =
     Inl (Thrown NO_LIST_DECORATION_ON_VARIATION
       (''Template item: '' @ dquote @ [CHR 0x09] @ ''- hi'' @ dquote
        @ '' does not have list decoration. Prefix line with '' @ dquote @ ''-'' @ dquote
        @ '' or '' @ dquote @ ''+'' @ dquote @ '' or '' @ dquote @ ''*'' @ dquote))"
  by code_simp

section \<open>What a body line leaves unchanged\<close>

lemma nth_update_name:
  "name t' = name (objs ! c) \<Longrightarrow> name (objs[c := t'] ! c) = name (objs ! c)"
  by (cases "c < length objs") (simp_all add: list_update_beyond)

lemma pushConditional_frame:
  assumes "pushConditional st = Inr st'"
  shows "cLGTemplate st' = cLGTemplate st"
    and "name (templateObjs st' ! cLGTemplate st) = name (templateObjs st ! cLGTemplate st)"
    and "inConditionalResponses st' = inConditionalResponses st"
    and "conditionalResponseItem st' = conditionalResponseItem st"
    and "pushAtEnd st' = pushAtEnd st"
    and "entities st' = entities st"
    and "LGTemplates st' = LGTemplates st"
    and "conditionObjs st' = conditionObjs st"
  using assms
  by (auto simp: pushConditional_def Let_def nth_update_name split: option.splits)

lemma flushPending_frame:
  assumes "flushPending st = Inr st'"
  shows "cLGTemplate st' = cLGTemplate st"
    and "name (templateObjs st' ! cLGTemplate st) = name (templateObjs st ! cLGTemplate st)"
    and "inConditionalResponses st' = inConditionalResponses st"
    and "conditionalResponseItem st' = conditionalResponseItem st"
    and "pushAtEnd st' = pushAtEnd st"
    and "entities st' = entities st"
    and "LGTemplates st' = LGTemplates st"
    and "conditionObjs st' = conditionObjs st"
  using assms pushConditional_frame [of st st']
  by (auto simp: flushPending_def split: if_splits)

lemma flushPending_succeeds: "itemSet st \<Longrightarrow> \<exists>st'. flushPending st = Inr st'"
  by (auto simp: flushPending_def pushConditional_def itemSet_def Let_def split: option.splits)

lemma newBlock_frame:
  assumes "newBlock e req cond st = Inr st'"
  shows "cLGTemplate st' = cLGTemplate st"
    and "templateObjs st' = templateObjs st"
    and "inConditionalResponses st'"
    and "conditionalResponseItem st' \<noteq> None"
    and "entities st' = entities st"
    and "LGTemplates st' = LGTemplates st"
  using assms by (auto simp: newBlock_def split: option.splits)

lemma conditionLine_frame:
  assumes "conditionLine e req cond st = Inr st'"
  shows "cLGTemplate st' = cLGTemplate st"
    and "name (templateObjs st' ! cLGTemplate st) = name (templateObjs st ! cLGTemplate st)"
    and "itemSet st'"
    and "entities st' = entities st"
    and "LGTemplates st' = LGTemplates st"
proof -
  from assms obtain st1 where f: "flushPending st = Inr st1"
    and r: "(let t = templateObjs st1 ! cLGTemplate st1 in
       if conditionalResponses t \<noteq> [] then
         (case filter (\<lambda>r. condition (conditionObjs st1 ! r) = cond) (conditionalResponses t) of
            r # _ \<Rightarrow>
              Inr (st1\<lparr>conditionalResponseItem := Some r,
                       pushAtEnd := False,
                       inConditionalResponses := True\<rparr>)
          | [] \<Rightarrow> newBlock e req cond st1)
       else newBlock e req cond st1) = Inr st'"
    by (auto simp: conditionLine_def bindE_eq_Inr)
  note ff = flushPending_frame [OF f]
  from r have "cLGTemplate st' = cLGTemplate st1 \<and> templateObjs st' = templateObjs st1
      \<and> itemSet st' \<and> entities st' = entities st1 \<and> LGTemplates st' = LGTemplates st1"
    by (auto simp: Let_def itemSet_def split: if_splits list.splits dest: newBlock_frame)
  with ff show "cLGTemplate st' = cLGTemplate st"
    and "name (templateObjs st' ! cLGTemplate st) = name (templateObjs st ! cLGTemplate st)"
    and "itemSet st'"
    and "entities st' = entities st"
    and "LGTemplates st' = LGTemplates st"
    by simp_all
qed

lemma variationLine_frame:
  assumes "variationLine e item st = Inr st'"
  shows "cLGTemplate st' = cLGTemplate st"
    and "name (templateObjs st' ! cLGTemplate st) = name (templateObjs st ! cLGTemplate st)"
    and "inConditionalResponses st' = inConditionalResponses st"
    and "conditionalResponseItem st' = conditionalResponseItem st"
    and "pushAtEnd st' = pushAtEnd st"
    and "entities st' = entities st"
    and "LGTemplates st' = LGTemplates st"
  using assms
  by (auto simp: variationLine_def bindE_eq_Inr Let_def nth_update_name
      split: if_splits option.splits)

lemma processLine_cases:
  assumes "processLine e st line = Inr st'"
  obtains (cond) req c where
      "conditionLine e req c
         (st\<lparr>entities := foldl detectEntity (entities st)
                (parseEntity e (removeTemplateLinkReferences line))\<rparr>) = Inr st'"
  | (plain) "variationLine e (trim (drop 1 (removeTemplateLinkReferences line)))
         (st\<lparr>entities := foldl detectEntity (entities st)
                (parseEntity e (removeTemplateLinkReferences line))\<rparr>) = Inr st'"
  using assms by (auto simp: processLine_def Let_def split: if_splits)

lemma processLine_frame:
  assumes "processLine e st line = Inr st'"
  shows "cLGTemplate st' = cLGTemplate st"
    and "name (templateObjs st' ! cLGTemplate st) = name (templateObjs st ! cLGTemplate st)"
    and "itemSet st \<Longrightarrow> itemSet st'"
    and "LGTemplates st' = LGTemplates st"
    and "entities st' = foldl detectEntity (entities st)
                (parseEntity e (removeTemplateLinkReferences line))"
proof -
  let ?st1 = "st\<lparr>entities := foldl detectEntity (entities st)
                (parseEntity e (removeTemplateLinkReferences line))\<rparr>"
  have "cLGTemplate st' = cLGTemplate st
      \<and> name (templateObjs st' ! cLGTemplate st) = name (templateObjs st ! cLGTemplate st)
      \<and> (itemSet st \<longrightarrow> itemSet st')
      \<and> LGTemplates st' = LGTemplates st
      \<and> entities st' = entities ?st1"
    using assms
  proof (cases rule: processLine_cases)
    case (cond req c)
    from conditionLine_frame [OF cond] show ?thesis by simp
  next
    case plain
    from variationLine_frame [OF plain] show ?thesis by (simp add: itemSet_def)
  qed
  then show "cLGTemplate st' = cLGTemplate st"
    and "name (templateObjs st' ! cLGTemplate st) = name (templateObjs st ! cLGTemplate st)"
    and "itemSet st \<Longrightarrow> itemSet st'"
    and "LGTemplates st' = LGTemplates st"
    and "entities st' = foldl detectEntity (entities st)
                (parseEntity e (removeTemplateLinkReferences line))"
    by simp_all
qed

lemma body_frame:
  assumes "forEachE (processLine e) st body = Inr st'"
  shows "cLGTemplate st' = cLGTemplate st
    \<and> name (templateObjs st' ! cLGTemplate st) = name (templateObjs st ! cLGTemplate st)
    \<and> (itemSet st \<longrightarrow> itemSet st')
    \<and> LGTemplates st' = LGTemplates st"
  using assms
proof (induction body arbitrary: st)
  case Nil
  then show ?case by simp
next
  case (Cons l ls)
  from Cons.prems obtain m where m: "processLine e st l = Inr m"
    and rest: "forEachE (processLine e) m ls = Inr st'"
    by (auto simp: bindE_eq_Inr)
  from processLine_frame [OF m] Cons.IH [OF rest] show ?case by simp
qed

lemma beginTemplate_name:
  "name (templateObjs (beginTemplate n ob) ! cLGTemplate (beginTemplate n ob)) = n"
proof (cases "LGTemplates ob \<noteq> []")
  case False
  then show ?thesis by (simp add: beginTemplate_def new_LGTemplate_def Let_def)
next
  case True
  show ?thesis
  proof (cases "filter (\<lambda>item. name (templateObjs ob ! item) = n) (LGTemplates ob)")
    case Nil
    with True show ?thesis
      by (simp add: beginTemplate_def new_LGTemplate_def nth_append Let_def)
  next
    case (Cons r rs)
    then have "r \<in> set (filter (\<lambda>item. name (templateObjs ob ! item) = n) (LGTemplates ob))"
      by simp
    then have "name (templateObjs ob ! r) = n" by simp
    with True Cons show ?thesis
      by (simp add: beginTemplate_def new_LGTemplate_def nth_append Let_def)
  qed
qed

lemma beginTemplate_itemSet: "itemSet (beginTemplate n ob)"
  by (simp add: beginTemplate_def itemSet_def Let_def)

section \<open>Templates without content\<close>

text \<open>
  Claim C6. When all body lines of a template chunk were read without error, the open
  block is pushed without error and the template at hand carries the name of the
  header. If that template then has no variation and no conditional response, the
  chunk throws \<open>INVALID_TEMPLATE\<close> with a text that quotes the name of the template;
  if it has a variation or a conditional response, the chunk succeeds with the
  object as it is after the commit.
\<close>

theorem empty_template_throws:
  assumes "LGObject p = Some ob"
    and "startsWith (INTENT e) (trim chunk)"
    and "splitLines (trim chunk) = header # body"
    and "forEachE (processLine e) (beginTemplate (afterFirstSpace header) ob) body = Inr st"
  shows "\<exists>st1. flushPending st = Inr st1
     \<and> name (templateObjs st1 ! cLGTemplate st1) = afterFirstSpace header
     \<and> toLG_chunk e p chunk =
         (if variations (templateObjs st1 ! cLGTemplate st1) = []
             \<and> conditionalResponses (templateObjs st1 ! cLGTemplate st1) = []
          then Inl (Thrown INVALID_TEMPLATE
                 (''Template '' @ dquote @ afterFirstSpace header @ dquote
                  @ '' does not have any variations or conditional response definition''))
          else Inr (p\<lparr>LGObject := Some (LGObject.truncate (commitTemplate st1))\<rparr>))"
proof -
  let ?b = "beginTemplate (afterFirstSpace header) ob"
  from body_frame [OF assms(4)] have c: "cLGTemplate st = cLGTemplate ?b"
    and n: "name (templateObjs st ! cLGTemplate st) = afterFirstSpace header"
    and i: "itemSet st"
    by (simp_all add: beginTemplate_name beginTemplate_itemSet)
  from flushPending_succeeds [OF i] obtain st1 where f: "flushPending st = Inr st1" by blast
  from flushPending_frame(1,2) [OF f] n
  have n1: "name (templateObjs st1 ! cLGTemplate st1) = afterFirstSpace header" by simp
  have t: "templateObjs (commitTemplate st1) = templateObjs st1"
    "cLGTemplate (commitTemplate st1) = cLGTemplate st1"
    by (simp_all add: commitTemplate_def)
  have "templateChunk e ob header body = checkTemplate (commitTemplate st1)"
    using assms(4) f by (simp add: templateChunk_def endTemplate_def bindE_Inr)
  then have "toLG_chunk e p chunk =
      bindE (checkTemplate (commitTemplate st1)) (\<lambda>ob'. Inr (p\<lparr>LGObject := Some ob'\<rparr>))"
    using assms(1-3) by (simp add: toLG_chunk_def)
  with n1 t f show ?thesis
    by (simp add: checkTemplate_def invalidTemplate_def Let_def bindE_def)
qed

theorem empty_template_throws_witness:
  "LGObject withLGObject = Some new_LGObject
   \<and> startsWith (INTENT lgEnv) (trim ''# T'')
   \<and> splitLines (trim ''# T'') = ''# T'' # []
   \<and> forEachE (processLine lgEnv) (beginTemplate (afterFirstSpace ''# T'') new_LGObject) []
     = Inr (beginTemplate (afterFirstSpace ''# T'') new_LGObject)
   \<and> toLG_chunk lgEnv withLGObject ''# T'' =
       Inl (Thrown INVALID_TEMPLATE
             (''Template '' @ dquote @ ''T'' @ dquote
              @ '' does not have any variations or conditional response definition''))"
proof -
  have a: "LGObject withLGObject = Some new_LGObject"
    by (rule withLGObject_LGObject)
  have b: "startsWith (INTENT lgEnv) (trim ''# T'')"
    by code_simp
  have c: "splitLines (trim ''# T'') = ''# T'' # []"
    by code_simp
  have d: "forEachE (processLine lgEnv) (beginTemplate (afterFirstSpace ''# T'') new_LGObject) []
     = Inr (beginTemplate (afterFirstSpace ''# T'') new_LGObject)"
    by simp
  have r: "toLG_chunk lgEnv withLGObject ''# T'' =
       Inl (Thrown INVALID_TEMPLATE
             (''Template '' @ dquote @ ''T'' @ dquote
              @ '' does not have any variations or conditional response definition''))"
    by code_simp
  from empty_template_throws [OF a b c d] a b c d r show ?thesis
    by simp
qed

text \<open>A chunk with a variation is not refused.\<close>

lemma template_with_variation_accepted:
  "map_sum id (\<lambda>p. map_option templateView (LGObject p)) (toLG_chunk lgEnv withLGObject ''# T\<newline>- hi'')
   = Inr (Some [(''T'', [''hi''], [])])"
  by code_simp

section \<open>Entity names stay distinct\<close>

lemma filter_name_empty: "(filter (\<lambda>x. e_name x = n) es = []) = (n \<notin> set (map e_name es))"
  by (induction es) auto

lemma detectEntity_distinct:
  "distinct (map e_name es) \<Longrightarrow> distinct (map e_name (detectEntity es n))"
  by (simp add: detectEntity_def filter_name_empty)

lemma detectEntities_distinct:
  "distinct (map e_name es) \<Longrightarrow> distinct (map e_name (foldl detectEntity es ns))"
  by (induction ns arbitrary: es) (simp_all add: detectEntity_distinct)

lemma body_entities_distinct:
  assumes "forEachE (processLine e) st body = Inr st'"
    and "distinct (map e_name (entities st))"
  shows "distinct (map e_name (entities st'))"
  using assms(1)
proof (rule forEachE_invariant)
  show "distinct (map e_name (entities st))" by (rule assms(2))
next
  fix a x b
  assume "distinct (map e_name (entities a))" and "processLine e a x = Inr b"
  then show "distinct (map e_name (entities b))"
    by (simp add: processLine_frame(5) detectEntities_distinct)
qed

lemma endTemplate_entities: "endTemplate st = Inr ob \<Longrightarrow> entities ob = entities st"
  by (auto simp: endTemplate_def bindE_eq_Inr checkTemplate_def commitTemplate_def Let_def
      LGObject.truncate_def split: if_splits dest: flushPending_frame(6))

lemma beginTemplate_entities: "entities (beginTemplate n ob) = entities ob"
  by (simp add: beginTemplate_def Let_def)

lemma templateChunk_entities_distinct:
  assumes "templateChunk e ob header body = Inr ob'" and "distinct (map e_name (entities ob))"
  shows "distinct (map e_name (entities ob'))"
proof -
  from assms(1) obtain st where b: "forEachE (processLine e) (beginTemplate (afterFirstSpace header) ob) body = Inr st"
    and f: "endTemplate st = Inr ob'"
    by (auto simp: templateChunk_def bindE_eq_Inr)
  from body_entities_distinct [OF b] assms(2) have "distinct (map e_name (entities st))"
    by (simp add: beginTemplate_entities)
  with endTemplate_entities [OF f] show ?thesis by simp
qed

lemma setFirstEntityType_names:
  "map e_name (setFirstEntityType n ty es) = map e_name es"
  by (induction es) simp_all

lemma setFirstEntityType_attributes:
  "map attributes (setFirstEntityType n ty es) = map attributes es"
  by (induction es) simp_all

lemma setFirstEntityType_others:
  "filter (\<lambda>x. e_name x \<noteq> n) (setFirstEntityType n ty es) = filter (\<lambda>x. e_name x \<noteq> n) es"
  by (induction es) simp_all

lemma setFirstEntityType_one:
  "distinct (map e_name es) \<Longrightarrow> n \<in> set (map e_name es) \<Longrightarrow>
   \<exists>x. filter (\<lambda>x. e_name x = n) (setFirstEntityType n ty es) = [x] \<and> entityType x = Some ty
       \<and> (\<exists>y \<in> set es. e_name y = n \<and> attributes x = attributes y)"
proof (induction es)
  case Nil
  then show ?case by simp
next
  case (Cons a es)
  show ?case
  proof (cases "e_name a = n")
    case True
    with Cons.prems(1) have "n \<notin> set (map e_name es)" by auto
    then have "filter (\<lambda>x. e_name x = n) es = []" by (simp add: filter_name_empty)
    with True show ?thesis by simp
  next
    case False
    with Cons show ?thesis by auto
  qed
qed

lemma entityChunk_entities_distinct:
  assumes "entityChunk e ob header = Inr ob'" and "distinct (map e_name (entities ob))"
  shows "distinct (map e_name (entities ob'))"
  using assms
  by (auto simp: entityChunk_def Let_def setFirstEntityType_names filter_name_empty
      split: list.splits if_splits)

lemma toLG_chunk_entities_distinct:
  assumes "toLG_chunk e p chunk = Inr p'"
    and "\<exists>ob. LGObject p = Some ob \<and> distinct (map e_name (entities ob))"
  shows "\<exists>ob. LGObject p' = Some ob \<and> distinct (map e_name (entities ob))"
proof -
  from assms(2) obtain ob where ob: "LGObject p = Some ob" and d: "distinct (map e_name (entities ob))"
    by blast
  obtain header body where ls: "splitLines (trim chunk) = header # body"
    using splitLines_nonempty [of "trim chunk"] by (cases "splitLines (trim chunk)") auto
  consider (t) "startsWith (INTENT e) (trim chunk)"
    | (f) "\<not> startsWith (INTENT e) (trim chunk)" "startsWith (FILEREF e) (trim chunk)"
    | (n) "\<not> startsWith (INTENT e) (trim chunk)" "\<not> startsWith (FILEREF e) (trim chunk)"
    by blast
  then show ?thesis
  proof cases
    case t
    with assms(1) ob ls obtain ob' where "templateChunk e ob header body = Inr ob'"
      and "p' = p\<lparr>LGObject := Some ob'\<rparr>"
      by (auto simp: toLG_chunk_def bindE_eq_Inr)
    with templateChunk_entities_distinct [OF _ d] show ?thesis by simp
  next
    case f
    with assms(1) ob ls have "fileRefChunk p header = Inr p'"
      by (simp add: toLG_chunk_def)
    then have "LGObject p' = LGObject p"
      by (auto simp: fileRefChunk_def Let_def split: option.splits if_splits)
    with ob d show ?thesis by simp
  next
    case n
    with assms(1) ob ls obtain ob' where "entityChunk e ob header = Inr ob'"
      and "p' = p\<lparr>LGObject := Some ob'\<rparr>"
      by (auto simp: toLG_chunk_def bindE_eq_Inr Let_def split: if_splits)
    with entityChunk_entities_distinct [OF _ d] show ?thesis by simp
  qed
qed

lemma reachable_entities_distinct:
  assumes "forEachE (toLG_chunk e) withLGObject cs = Inr p"
  shows "\<exists>ob. LGObject p = Some ob \<and> distinct (map e_name (entities ob))"
  using assms
proof (rule forEachE_invariant)
  show "\<exists>ob. LGObject withLGObject = Some ob \<and> distinct (map e_name (entities ob))"
    by (simp add: withLGObject_LGObject new_LGObject_def)
next
  fix a x b
  assume "\<exists>ob. LGObject a = Some ob \<and> distinct (map e_name (entities ob))"
    and "toLG_chunk e a x = Inr b"
  then show "\<exists>ob. LGObject b = Some ob \<and> distinct (map e_name (entities ob))"
    using toLG_chunk_entities_distinct by blast
qed

section \<open>Entity definitions that come again\<close>

text \<open>
  Claim C8. Let the chunks read so far have given the object \<open>ob\<close>, and let the next
  chunk be an entity definition whose line splits into a name and a type with
  attributes, the name being one that \<open>ob\<close> has. Then the chunk succeeds; the entity
  list keeps its names and all its attributes, so the attributes of the new definition
  are dropped; the entities of other names are untouched; exactly one entity has the
  name, and its type is the one \<open>getEntityType\<close> gives for the type of the new
  definition. Templates are untouched.
\<close>

theorem redeclared_entity_type_overwritten:
  assumes "forEachE (toLG_chunk e) withLGObject pre = Inr p"
    and "LGObject p = Some ob"
    and "\<not> startsWith (INTENT e) (trim chunk)"
    and "\<not> startsWith (FILEREF e) (trim chunk)"
    and "startsWith (ENTITY e) (trim chunk)"
    and "splitLines (trim chunk) = header # body"
    and "splitChar (CHR '':'') (replaceFirst (ENTITY e) [] header) = [n, d]"
    and "splitChar (CHR 0x20) (trim d) = t # toks"
    and "trim n \<in> set (map e_name (entities ob))"
  shows "\<exists>ob' x. toLG_chunk e p chunk = Inr (p\<lparr>LGObject := Some ob'\<rparr>)
     \<and> filter (\<lambda>x. e_name x = trim n) (entities ob') = [x]
     \<and> entityType x = Some (getEntityType e (trim t))
     \<and> map e_name (entities ob') = map e_name (entities ob)
     \<and> map attributes (entities ob') = map attributes (entities ob)
     \<and> filter (\<lambda>x. e_name x \<noteq> trim n) (entities ob') = filter (\<lambda>x. e_name x \<noteq> trim n) (entities ob)
     \<and> LGTemplates ob' = LGTemplates ob \<and> templateObjs ob' = templateObjs ob
     \<and> conditionObjs ob' = conditionObjs ob"
proof -
  let ?ty = "getEntityType e (trim t)"
  let ?ob' = "ob\<lparr>entities := setFirstEntityType (trim n) ?ty (entities ob)\<rparr>"
  from reachable_entities_distinct [OF assms(1)] assms(2)
  have d: "distinct (map e_name (entities ob))" by simp
  from assms(9) have "filter (\<lambda>item. e_name item = trim n) (entities ob) \<noteq> []"
    by (simp add: filter_name_empty)
  with assms(7,8) have "entityChunk e ob header = Inr ?ob'"
    by (simp add: entityChunk_def Let_def)
  with assms(2-6) have run: "toLG_chunk e p chunk = Inr (p\<lparr>LGObject := Some ?ob'\<rparr>)"
    by (simp add: toLG_chunk_def bindE_Inr)
  from setFirstEntityType_one [OF d assms(9), of ?ty] obtain x where
    "filter (\<lambda>x. e_name x = trim n) (entities ?ob') = [x]" and "entityType x = Some ?ty"
    by auto
  with run show ?thesis
    by (intro exI [of _ ?ob'] exI [of _ x])
      (simp add: setFirstEntityType_names setFirstEntityType_attributes setFirstEntityType_others)
qed

theorem redeclared_entity_type_overwritten_witness:
  "forEachE (toLG_chunk lgEnv) withLGObject [''$ person : builtin''] =
     Inr \<lparr>LGObject = Some (new_LGObject\<lparr>entities :=
            [\<lparr>e_name = ''person'', entityType = Some ''builtin'', attributes = []\<rparr>]\<rparr>),
          additionalFilesToParse = []\<rparr>
   \<and> \<not> startsWith (INTENT lgEnv) (trim ''$ person : custom a = b'')
   \<and> \<not> startsWith (FILEREF lgEnv) (trim ''$ person : custom a = b'')
   \<and> startsWith (ENTITY lgEnv) (trim ''$ person : custom a = b'')
   \<and> splitLines (trim ''$ person : custom a = b'') = [''$ person : custom a = b'']
   \<and> splitChar (CHR '':'') (replaceFirst (ENTITY lgEnv) [] ''$ person : custom a = b'')
       = ['' person '', '' custom a = b'']
   \<and> splitChar (CHR 0x20) (trim '' custom a = b'') = ''custom'' # [''a'', ''='', ''b'']
   \<and> trim '' person '' = ''person''
   \<and> toLG lgEnv (Array [''$ person : builtin'', ''$ person : custom a = b'']) =
       Inr \<lparr>LGObject = Some (new_LGObject\<lparr>entities :=
              [\<lparr>e_name = ''person'', entityType = Some ''custom'', attributes = []\<rparr>]\<rparr>),
            additionalFilesToParse = []\<rparr>"
proof -
  let ?ob = "new_LGObject\<lparr>entities :=
            [\<lparr>e_name = ''person'', entityType = Some ''builtin'', attributes = []\<rparr>]\<rparr>"
  let ?p = "\<lparr>LGObject = Some ?ob, additionalFilesToParse = []\<rparr>"
  have a: "forEachE (toLG_chunk lgEnv) withLGObject [''$ person : builtin''] = Inr ?p"
    by code_simp
  have b: "LGObject ?p = Some ?ob"
    by simp
  have c: "\<not> startsWith (INTENT lgEnv) (trim ''$ person : custom a = b'')"
    by code_simp
  have d: "\<not> startsWith (FILEREF lgEnv) (trim ''$ person : custom a = b'')"
    by code_simp
  have f: "startsWith (ENTITY lgEnv) (trim ''$ person : custom a = b'')"
    by code_simp
  have g: "splitLines (trim ''$ person : custom a = b'') = [''$ person : custom a = b'']"
    by code_simp
  have h: "splitChar (CHR '':'') (replaceFirst (ENTITY lgEnv) [] ''$ person : custom a = b'')
       = ['' person '', '' custom a = b'']"
    by code_simp
  have i: "splitChar (CHR 0x20) (trim '' custom a = b'') = ''custom'' # [''a'', ''='', ''b'']"
    by code_simp
  have j: "trim '' person '' = ''person''"
    by code_simp
  have k: "trim '' person '' \<in> set (map e_name (entities ?ob))"
    by (simp add: j)
  have run: "toLG lgEnv (Array [''$ person : builtin'', ''$ person : custom a = b'']) =
       Inr \<lparr>LGObject = Some (new_LGObject\<lparr>entities :=
              [\<lparr>e_name = ''person'', entityType = Some ''custom'', attributes = []\<rparr>]\<rparr>),
            additionalFilesToParse = []\<rparr>"
    by code_simp
  from redeclared_entity_type_overwritten [OF a b c d f g h i k] a c d f g h i j run
  show ?thesis
    by simp
qed

section \<open>File references without a link target\<close>

text \<open>
  Claim C7. A file reference with a link target names the target, and one with an empty
  target throws \<open>INVALID_LG_FILE_REF\<close>; but a file reference with no parenthesised
  target at all does not reach that check: \<^verbatim>\<open>match\<close> answers \<^verbatim>\<open>null\<close>, and reading
  its first element raises a \<open>TypeError\<close>.
\<close>

theorem missing_link_target_raises_TypeError:
  "toLG lgEnv (Array [''[ref]'']) = Inl TypeError"
  by code_simp

lemma link_target_is_appended:
  "toLG lgEnv (Array [''[ref](other.lg)'']) =
     Inr \<lparr>LGObject = Some new_LGObject, additionalFilesToParse = [''other.lg'']\<rparr>"
  by code_simp

lemma empty_link_target_throws:
  "toLG lgEnv (Array [''[ref]()'']) =
     Inl (Thrown INVALID_LG_FILE_REF ''[ERROR]: Invalid LU File Ref: [ref]()'')"
  by code_simp

section \<open>Templates listed twice, templates lost\<close>

text \<open>
  Claim C1. A template should be pushed into the template list exactly when the chunk
  created it. The flag \<open>pushAtEnd\<close> that decides the push is also the flag of the
  condition lookup, which overwrites it. A chunk that adds a new block to a template
  that is already listed pushes the template a second time.
\<close>

theorem redeclared_template_listed_twice:
  "map_sum id (\<lambda>p. map_option templateNames (LGObject p))
     (toLG lgEnv (Array [''# T\<newline>- hi'', ''# T\<newline>- ELSE:\<newline>- x'']))
   = Inr (Some [''T'', ''T''])"
  by code_simp

text \<open>A chunk that creates a template and ends in a block it had met before does not
  push the template at all, and throws nothing.\<close>

lemma new_template_lost:
  "map_sum id (\<lambda>p. map_option templateNames (LGObject p))
     (toLG lgEnv (Array [''# T\<newline>- IF: a\<newline>- x\<newline>- IF: a\<newline>- y'']))
   = Inr (Some [])"
  by code_simp

section \<open>A body line against the spec\<close>

lemma flushPending_sim:
  assumes wf: "blocksWF st" and f: "flushPending st = Inr st1"
  shows "listedBlocks st1 = listedBlocks st @ pendingBlocks st"
    and "cLGTemplate st1 = cLGTemplate st"
    and "conditionObjs st1 = conditionObjs st"
    and "cLGTemplate st1 < length (templateObjs st1)"
    and "\<forall>r \<in> set (conditionalResponses (templateObjs st1 ! cLGTemplate st1)). r < length (conditionObjs st1)"
    and "distinct (map (\<lambda>r. condition (conditionObjs st1 ! r))
            (conditionalResponses (templateObjs st1 ! cLGTemplate st1)))"
    and "inConditionalResponses st \<Longrightarrow>
          \<exists>r. conditionalResponseItem st = Some r
             \<and> r \<in> set (conditionalResponses (templateObjs st1 ! cLGTemplate st1))"
proof -
  let ?c = "cLGTemplate st"
  let ?t = "templateObjs st ! ?c"
  show "listedBlocks st1 = listedBlocks st @ pendingBlocks st"
    and "cLGTemplate st1 = cLGTemplate st"
    and "conditionObjs st1 = conditionObjs st"
    and "cLGTemplate st1 < length (templateObjs st1)"
    and "\<forall>r \<in> set (conditionalResponses (templateObjs st1 ! cLGTemplate st1)). r < length (conditionObjs st1)"
    and "distinct (map (\<lambda>r. condition (conditionObjs st1 ! r))
            (conditionalResponses (templateObjs st1 ! cLGTemplate st1)))"
    and "inConditionalResponses st \<Longrightarrow>
          \<exists>r. conditionalResponseItem st = Some r
             \<and> r \<in> set (conditionalResponses (templateObjs st1 ! cLGTemplate st1))"
    using wf f
    by (auto simp: flushPending_def pushConditional_def blocksWF_def Let_def listedBlocks_def
        pendingBlocks_def blockView_def split: if_splits option.splits)
qed


lemma filter_condition_empty:
  "(filter (\<lambda>r. condition (objs ! r) = cnd) crs = []) =
   (cnd \<notin> set (map (\<lambda>r. condition (objs ! r)) crs))"
  by (induction crs) auto

lemma filter_condition_Cons:
  "filter (\<lambda>r. condition (objs ! r) = cnd) crs = r # rs \<Longrightarrow>
   r \<in> set crs \<and> condition (objs ! r) = cnd"
proof -
  assume a: "filter (\<lambda>r. condition (objs ! r) = cnd) crs = r # rs"
  have "r \<in> set (filter (\<lambda>r. condition (objs ! r) = cnd) crs)"
    by (simp add: a)
  then show ?thesis by simp
qed

lemma newBlock_sim:
  assumes c: "cLGTemplate st1 < length (templateObjs st1)"
    and rng: "\<forall>r \<in> set (conditionalResponses (templateObjs st1 ! cLGTemplate st1)). r < length (conditionObjs st1)"
    and dist: "distinct (map (\<lambda>r. condition (conditionObjs st1 ! r))
            (conditionalResponses (templateObjs st1 ! cLGTemplate st1)))"
    and fresh: "cnd \<notin> set (map (\<lambda>r. condition (conditionObjs st1 ! r))
            (conditionalResponses (templateObjs st1 ! cLGTemplate st1)))"
    and n: "newBlock e req cnd st1 = Inr st'"
  shows "blocksWF st'"
    and "absOf st' = (listedBlocks st1 @ [(cnd, [])], Some cnd)"
proof -
  let ?crs = "conditionalResponses (templateObjs st1 ! cLGTemplate st1)"
  from n have st': "st' = st1\<lparr>conditionObjs := conditionObjs st1 @ [\<lparr>condition = cnd, cr_variations = []\<rparr>],
                  conditionalResponseItem := Some (length (conditionObjs st1)),
                  pushAtEnd := True,
                  inConditionalResponses := True\<rparr>"
    by (auto simp: newBlock_def split: option.splits)
  have old: "\<And>r. r \<in> set ?crs \<Longrightarrow>
      (conditionObjs st1 @ [\<lparr>condition = cnd, cr_variations = []\<rparr>]) ! r = conditionObjs st1 ! r"
    using rng by (simp add: nth_append)
  have m: "map (\<lambda>r. condition ((conditionObjs st1 @ [\<lparr>condition = cnd, cr_variations = []\<rparr>]) ! r)) ?crs
      = map (\<lambda>r. condition (conditionObjs st1 ! r)) ?crs"
    using old by simp
  have v: "map (blockView st') ?crs = map (blockView st1) ?crs"
    using old by (simp add: st' blockView_def)
  have d': "distinct (map (\<lambda>r. condition ((conditionObjs st1 @ [\<lparr>condition = cnd, cr_variations = []\<rparr>]) ! r)) ?crs)"
    by (simp only: m dist)
  have f': "cnd \<notin> set (map (\<lambda>r. condition ((conditionObjs st1 @ [\<lparr>condition = cnd, cr_variations = []\<rparr>]) ! r)) ?crs)"
    using fresh by (simp only: m not_False_eq_True)
  show "blocksWF st'"
    using c rng d' f' by (simp add: st' blocksWF_def Let_def less_SucI)
  show "absOf st' = (listedBlocks st1 @ [(cnd, [])], Some cnd)"
    using v by (simp add: absOf_def listedBlocks_def pendingBlocks_def openCondition_def st' blockView_def)
qed

lemma conditionLine_sim:
  assumes wf: "blocksWF st" and r: "conditionLine e req cnd st = Inr st'"
  shows "blocksWF st'"
    and "absOf st' = specStep e (absOf st) (ConditionLine cnd)"
proof -
  from r obtain st1 where f: "flushPending st = Inr st1"
    and l: "(let t = templateObjs st1 ! cLGTemplate st1 in
       if conditionalResponses t \<noteq> [] then
         (case filter (\<lambda>r. condition (conditionObjs st1 ! r) = cnd) (conditionalResponses t) of
            r # _ \<Rightarrow>
              Inr (st1\<lparr>conditionalResponseItem := Some r,
                       pushAtEnd := False,
                       inConditionalResponses := True\<rparr>)
          | [] \<Rightarrow> newBlock e req cnd st1)
       else newBlock e req cnd st1) = Inr st'"
    by (auto simp: conditionLine_def bindE_eq_Inr)
  note fs = flushPending_sim [OF wf f]
  let ?crs = "conditionalResponses (templateObjs st1 ! cLGTemplate st1)"
  have keys: "map fst (listedBlocks st1) = map (\<lambda>r. condition (conditionObjs st1 ! r)) ?crs"
    by (simp add: listedBlocks_def blockView_def)
  have a: "fst (absOf st) = listedBlocks st1"
    using fs(1) by (simp add: absOf_def)
  show "blocksWF st'" and "absOf st' = specStep e (absOf st) (ConditionLine cnd)"
  proof -
    consider (found) r rs where "filter (\<lambda>r. condition (conditionObjs st1 ! r) = cnd) ?crs = r # rs"
      | (fresh) "filter (\<lambda>r. condition (conditionObjs st1 ! r) = cnd) ?crs = []"
      by (cases "filter (\<lambda>r. condition (conditionObjs st1 ! r) = cnd) ?crs") auto
    then have "blocksWF st' \<and> absOf st' = specStep e (absOf st) (ConditionLine cnd)"
    proof cases
      case found
      then have ne: "?crs \<noteq> []" by auto
      from filter_condition_Cons [OF found] have rin: "r \<in> set ?crs"
        and rc: "condition (conditionObjs st1 ! r) = cnd" by simp_all
      from l found ne have st': "st' = st1\<lparr>conditionalResponseItem := Some r,
                       pushAtEnd := False, inConditionalResponses := True\<rparr>"
        by (simp add: Let_def)
      have w: "blocksWF st'"
        using fs(4-6) rin by (auto simp: st' blocksWF_def Let_def)
      have "cnd \<in> set (map fst (listedBlocks st1))"
        using rin rc by (auto simp: keys)
      moreover have "absOf st' = (listedBlocks st1, Some cnd)"
        using rc by (simp add: absOf_def st' listedBlocks_def pendingBlocks_def
            openCondition_def blockView_def)
      ultimately have "absOf st' = specStep e (absOf st) (ConditionLine cnd)"
        using a by (cases "absOf st") simp
      with w show ?thesis by simp
    next
      case fresh
      with l have n: "newBlock e req cnd st1 = Inr st'"
        by (simp add: Let_def split: if_splits)
      from fresh have fr: "cnd \<notin> set (map (\<lambda>r. condition (conditionObjs st1 ! r)) ?crs)"
        by (simp add: filter_condition_empty)
      from newBlock_sim [OF fs(4) fs(5) fs(6) fr n]
      have w: "blocksWF st'" and ab: "absOf st' = (listedBlocks st1 @ [(cnd, [])], Some cnd)"
        by simp_all
      from fr have "cnd \<notin> set (map fst (listedBlocks st1))"
        by (simp add: keys)
      with ab a have "absOf st' = specStep e (absOf st) (ConditionLine cnd)"
        by (cases "absOf st") simp
      with w show ?thesis by simp
    qed
    then show "blocksWF st'" and "absOf st' = specStep e (absOf st) (ConditionLine cnd)"
      by simp_all
  qed
qed


lemma map_addVariation_present:
  "\<forall>b \<in> set bs. fst b = c \<longrightarrow> v \<in> set (snd b) \<Longrightarrow>
   map (\<lambda>b. if fst b = c then (fst b, addVariation (snd b) v) else b) bs = bs"
  by (induction bs) (auto simp: addVariation_def)

lemma map_addVariation_absent:
  "c \<notin> set (map fst bs) \<Longrightarrow>
   map (\<lambda>b. if fst b = c then (fst b, addVariation (snd b) v) else b) bs = bs"
  by (induction bs) auto

lemma variationLine_flat_sim:
  assumes wf: "blocksWF st" and nc: "\<not> inConditionalResponses st"
    and r: "variationLine e v st = Inr st'"
  shows "blocksWF st'" and "absOf st' = absOf st"
proof -
  let ?c = "cLGTemplate st"
  let ?t = "templateObjs st ! ?c"
  from wf have c: "?c < length (templateObjs st)"
    by (simp add: blocksWF_def Let_def)
  from r nc consider (same) "st' = st"
    | (add) "st' = st\<lparr>templateObjs := (templateObjs st)[?c := ?t\<lparr>variations := variations ?t @ [v]\<rparr>]\<rparr>"
    by (auto simp: variationLine_def bindE_eq_Inr Let_def split: if_splits)
  then have "blocksWF st' \<and> absOf st' = absOf st"
  proof cases
    case same
    with wf show ?thesis by simp
  next
    case add
    with wf c nc show ?thesis
      by (simp add: blocksWF_def Let_def absOf_def listedBlocks_def pendingBlocks_def
          openCondition_def blockView_def)
  qed
  then show "blocksWF st'" and "absOf st' = absOf st" by simp_all
qed

lemma variationLine_block_sim:
  assumes wf: "blocksWF st" and ic: "inConditionalResponses st"
    and r: "variationLine e v st = Inr st'"
  shows "blocksWF st'"
    and "\<exists>c. openCondition st = Some c \<and> absOf st' =
           (if accepted e v
            then map (\<lambda>b. if fst b = c then (fst b, addVariation (snd b) v) else b) (fst (absOf st))
            else fst (absOf st), Some c)"
proof -
  let ?crs = "conditionalResponses (templateObjs st ! cLGTemplate st)"
  let ?objs = "conditionObjs st"
  from wf ic obtain i where i: "conditionalResponseItem st = Some i" and il: "i < length ?objs"
    and ip: "if pushAtEnd st
             then condition (?objs ! i) \<notin> set (map (\<lambda>r. condition (?objs ! r)) ?crs)
             else i \<in> set ?crs"
    by (auto simp: blocksWF_def Let_def)
  from wf have dist: "distinct (map (\<lambda>r. condition (?objs ! r)) ?crs)"
    and rng: "\<forall>r \<in> set ?crs. r < length ?objs"
    by (simp_all add: blocksWF_def Let_def)
  let ?b = "?objs ! i"
  let ?c = "condition ?b"
  have oc: "openCondition st = Some ?c"
    using ic i by (simp add: openCondition_def)
  from r obtain ok where ok: "validateVariationItem e v = Inr ok"
    by (cases "validateVariationItem e v") (simp_all add: variationLine_def bindE_def)
  have r': "(if ok \<and> v \<notin> set (cr_variations ?b)
              then Inr (st\<lparr>conditionObjs := ?objs[i := ?b\<lparr>cr_variations := cr_variations ?b @ [v]\<rparr>]\<rparr>)
              else Inr st) = Inr st'"
    using r ic i ok by (auto simp: variationLine_def bindE_Inr Let_def split: if_splits)
  have acc: "accepted e v = ok"
    using ok by (simp add: accepted_def)
  have uniq: "\<And>r. r \<in> set ?crs \<Longrightarrow> condition (?objs ! r) = ?c \<Longrightarrow> \<not> pushAtEnd st \<Longrightarrow> r = i"
  proof -
    fix r assume "r \<in> set ?crs" and "condition (?objs ! r) = ?c" and "\<not> pushAtEnd st"
    with ip have "i \<in> set ?crs" by simp
    with dist \<open>r \<in> set ?crs\<close> \<open>condition (?objs ! r) = ?c\<close> show "r = i"
      by (meson distinct_map inj_onD)
  qed
  show "blocksWF st'"
    and "\<exists>c. openCondition st = Some c \<and> absOf st' =
           (if accepted e v
            then map (\<lambda>b. if fst b = c then (fst b, addVariation (snd b) v) else b) (fst (absOf st))
            else fst (absOf st), Some c)"
  proof -
    have "blocksWF st' \<and> absOf st' =
           (if accepted e v
            then map (\<lambda>b. if fst b = ?c then (fst b, addVariation (snd b) v) else b) (fst (absOf st))
            else fst (absOf st), Some ?c)"
    proof (cases "ok \<and> v \<notin> set (cr_variations ?b)")
      case False
      with r' have same: "st' = st" by simp
      have "\<forall>b \<in> set (fst (absOf st)). fst b = ?c \<longrightarrow> v \<in> set (snd b)" if "ok"
      proof
        fix b assume b: "b \<in> set (fst (absOf st))"
        from that False have vin: "v \<in> set (cr_variations ?b)" by simp
        show "fst b = ?c \<longrightarrow> v \<in> set (snd b)"
        proof
          assume fb: "fst b = ?c"
          show "v \<in> set (snd b)"
          proof (cases "pushAtEnd st")
            case True
            with ip have "?c \<notin> set (map fst (listedBlocks st))"
              by (simp add: listedBlocks_def blockView_def)
            with b fb True ic i have "b = blockView st i"
              by (force simp: absOf_def pendingBlocks_def)
            with vin show ?thesis by (simp add: blockView_def)
          next
            case False
            with b ic obtain r where "r \<in> set ?crs" and "b = blockView st r"
              by (auto simp: absOf_def pendingBlocks_def listedBlocks_def)
            with fb have "condition (?objs ! r) = ?c"
              by (simp add: blockView_def)
            from uniq [OF \<open>r \<in> set ?crs\<close> this False] \<open>b = blockView st r\<close>
            have "b = blockView st i" by simp
            with vin show ?thesis by (simp add: blockView_def)
          qed
        qed
      qed
      then have "ok \<Longrightarrow> map (\<lambda>b. if fst b = ?c then (fst b, addVariation (snd b) v) else b) (fst (absOf st))
          = fst (absOf st)"
        by (rule map_addVariation_present)
      with wf same oc acc show ?thesis
        by (cases "absOf st") (auto simp: absOf_def)
    next
      case True
      let ?b' = "?b\<lparr>cr_variations := cr_variations ?b @ [v]\<rparr>"
      from True r' have st': "st' = st\<lparr>conditionObjs := ?objs[i := ?b']\<rparr>" by simp
      have cond_same: "\<And>r. condition (?objs[i := ?b'] ! r) = condition (?objs ! r)"
        using il by (simp add: nth_list_update)
      have w: "blocksWF st'"
        using wf by (auto simp: st' blocksWF_def Let_def cond_same)
      have view: "\<And>r. blockView st' r =
          (if r = i then (?c, addVariation (cr_variations ?b) v) else blockView st r)"
        using il True by (simp add: st' blockView_def nth_list_update addVariation_def)
      have tc: "templateObjs st' = templateObjs st" "cLGTemplate st' = cLGTemplate st"
        "conditionalResponseItem st' = conditionalResponseItem st"
        "inConditionalResponses st' = inConditionalResponses st" "pushAtEnd st' = pushAtEnd st"
        by (simp_all add: st')
      have listed: "listedBlocks st' =
          map (\<lambda>b. if fst b = ?c then (fst b, addVariation (snd b) v) else b) (listedBlocks st)"
      proof (cases "pushAtEnd st")
        case True
        with ip have notin: "?c \<notin> set (map fst (listedBlocks st))"
          by (simp add: listedBlocks_def blockView_def)
        then have "i \<notin> set ?crs"
          by (auto simp: listedBlocks_def blockView_def)
        then have "listedBlocks st' = listedBlocks st"
          by (auto simp: listedBlocks_def view tc)
        with notin show ?thesis by (simp add: map_addVariation_absent)
      next
        case False
        have "blockView st' r =
            (if fst (blockView st r) = ?c then (fst (blockView st r), addVariation (snd (blockView st r)) v)
             else blockView st r)" if rin: "r \<in> set ?crs" for r
        proof (cases "r = i")
          case True
          have "blockView st i = (?c, cr_variations ?b)" by (simp add: blockView_def)
          with True show ?thesis by (simp add: view)
        next
          case ne: False
          have "fst (blockView st r) \<noteq> ?c"
          proof
            assume "fst (blockView st r) = ?c"
            then have "condition (?objs ! r) = ?c" by (simp add: blockView_def)
            from uniq [OF rin this False] ne show False by simp
          qed
          with ne show ?thesis by (simp add: view)
        qed
        then show ?thesis
          by (simp add: listedBlocks_def tc)
      qed
      have pending: "pendingBlocks st' =
          map (\<lambda>b. if fst b = ?c then (fst b, addVariation (snd b) v) else b) (pendingBlocks st)"
      proof -
        have "blockView st' i = (?c, addVariation (cr_variations ?b) v)"
          by (simp add: view)
        moreover have "blockView st i = (?c, cr_variations ?b)"
          by (simp add: blockView_def)
        ultimately show ?thesis
          using i by (simp add: pendingBlocks_def tc)
      qed
      have "openCondition st' = Some ?c"
        using ic i by (simp add: openCondition_def st' cond_same)
      with w listed pending True acc show ?thesis
        by (simp add: absOf_def)
    qed
    with oc show "blocksWF st'"
      and "\<exists>c. openCondition st = Some c \<and> absOf st' =
           (if accepted e v
            then map (\<lambda>b. if fst b = c then (fst b, addVariation (snd b) v) else b) (fst (absOf st))
            else fst (absOf st), Some c)"
      by simp_all
  qed
qed

section \<open>Sections and blocks\<close>

lemma foldl_addVariation_set: "set (foldl addVariation acc xs) = set acc \<union> set xs"
  by (induction xs arbitrary: acc) (auto simp: addVariation_def)

lemma foldl_addVariation_distinct: "distinct acc \<Longrightarrow> distinct (foldl addVariation acc xs)"
  by (induction xs arbitrary: acc) (auto simp: addVariation_def)

lemma foldl_addVariation_snoc:
  "foldl addVariation acc (xs @ [x]) = addVariation (foldl addVariation acc xs) x"
  by simp

lemma mergedInto_keys:
  "map fst (mergedInto bs secs) = foldl addVariation (map fst bs) (map fst secs)"
  by (simp add: mergedInto_def comp_def)

lemma variationsIn_absent: "c \<notin> set (map fst bs) \<Longrightarrow> variationsIn bs c = []"
  by (simp add: variationsIn_def map_of_eq_None_iff [THEN iffD2])

lemma filter_absent: "c \<notin> set (map fst secs) \<Longrightarrow> filter (\<lambda>s. fst s = c) secs = []"
  by (induction secs) auto

lemma mergedInto_Nil:
  "distinct (map fst bs) \<Longrightarrow> mergedInto bs [] = bs"
proof -
  assume d: "distinct (map fst bs)"
  have "map (\<lambda>c. (c, variationsIn bs c)) (map fst bs) = bs"
    using d
  proof (induction bs)
    case Nil
    then show ?case by simp
  next
    case (Cons b bs)
    have "map (\<lambda>c. (c, variationsIn (b # bs) c)) (map fst bs) = map (\<lambda>c. (c, variationsIn bs c)) (map fst bs)"
    proof (rule map_cong [OF refl])
      fix c assume "c \<in> set (map fst bs)"
      with Cons.prems have "c \<noteq> fst b" by force
      then show "(c, variationsIn (b # bs) c) = (c, variationsIn bs c)"
        by (cases b) (simp add: variationsIn_def)
    qed
    with Cons show ?case by (cases b) (simp add: variationsIn_def)
  qed
  then show ?thesis by (simp add: mergedInto_def)
qed

lemma mergedInto_condition:
  "mergedInto bs (secs @ [(c, [])]) =
     (if c \<in> set (map fst (mergedInto bs secs)) then mergedInto bs secs
      else mergedInto bs secs @ [(c, [])])"
proof -
  let ?K = "foldl addVariation (map fst bs) (map fst secs)"
  have same: "\<And>k. concat (map snd (filter (\<lambda>s. fst s = k) (secs @ [(c, [])])))
      = concat (map snd (filter (\<lambda>s. fst s = k) secs))"
    by simp
  show ?thesis
  proof (cases "c \<in> set ?K")
    case True
    then show ?thesis
      by (simp add: mergedInto_def same addVariation_def comp_def del: filter_append)
  next
    case False
    then have "c \<notin> set (map fst bs)" and "c \<notin> set (map fst secs)"
      by (simp_all add: foldl_addVariation_set)
    then have "variationsIn bs c = []" and "filter (\<lambda>s. fst s = c) secs = []"
      by (simp_all add: variationsIn_absent filter_absent)
    with False show ?thesis
      by (simp add: mergedInto_def same addVariation_def comp_def del: filter_append)
  qed
qed

lemma mergedInto_variation:
  assumes "secs \<noteq> []"
  shows "mergedInto bs (butlast secs @ [(fst (last secs), snd (last secs) @ [v])]) =
     map (\<lambda>b. if fst b = fst (last secs) then (fst b, addVariation (snd b) v) else b)
       (mergedInto bs secs)"
proof -
  obtain ss c vs where secs: "secs = ss @ [(c, vs)]"
    using assms by (metis rev_exhaust surj_pair)
  have keys: "map fst (ss @ [(c, vs @ [v])]) = map fst (ss @ [(c, vs)])" by simp
  have other: "\<And>k. k \<noteq> c \<Longrightarrow> concat (map snd (filter (\<lambda>s. fst s = k) (ss @ [(c, vs @ [v])])))
      = concat (map snd (filter (\<lambda>s. fst s = k) (ss @ [(c, vs)])))"
    by simp
  have this_one: "concat (map snd (filter (\<lambda>s. fst s = c) (ss @ [(c, vs @ [v])])))
      = concat (map snd (filter (\<lambda>s. fst s = c) (ss @ [(c, vs)]))) @ [v]"
    by simp
  have "mergedInto bs (ss @ [(c, vs @ [v])]) =
     map (\<lambda>b. if fst b = c then (fst b, addVariation (snd b) v) else b)
       (mergedInto bs (ss @ [(c, vs)]))"
    unfolding mergedInto_def keys map_map comp_def
    by (rule map_cong [OF refl]) (simp add: other this_one del: filter_append map_append)
  with secs show ?thesis by simp
qed

lemma specStep_sections:
  assumes "distinct (map fst bs)"
  shows "foldl (specStep e) (bs, None) kinds =
           (mergedInto bs (sectionsOf e kinds), lastCondition (sectionsOf e kinds))"
proof (induction kinds rule: rev_induct)
  case Nil
  show ?case using assms by (simp add: sectionsOf_def mergedInto_Nil lastCondition_def)
next
  case (snoc k kinds)
  let ?S = "sectionsOf e kinds"
  have step: "\<And>x. sectionsOf e (kinds @ [x]) = addLine e ?S x"
    by (simp add: sectionsOf_def)
  show ?case
  proof (cases k)
    case (ConditionLine c)
    then show ?thesis
      using snoc by (simp add: step mergedInto_condition lastCondition_def)
  next
    case (PlainLine v)
    show ?thesis
    proof (cases "?S = []")
      case True
      with PlainLine snoc show ?thesis
        by (simp add: step lastCondition_def)
    next
      case False
      with PlainLine snoc show ?thesis
        by (simp add: step lastCondition_def mergedInto_variation)
    qed
  qed
qed

section \<open>What a body keeps\<close>

lemma keeps_refl: "keeps st st"
  by (simp add: keeps_def)

lemma keeps_trans: "keeps a b \<Longrightarrow> keeps b c \<Longrightarrow> keeps a c"
  by (auto simp: keeps_def)

lemma keeps_entities: "keeps (st\<lparr>entities := es\<rparr>) st' \<Longrightarrow> keeps st st'"
  by (simp add: keeps_def)

lemma pushConditional_keeps: "pushConditional st = Inr st' \<Longrightarrow> keeps st st'"
  by (auto simp: pushConditional_def keeps_def Let_def split: option.splits)

lemma flushPending_keeps: "flushPending st = Inr st' \<Longrightarrow> keeps st st'"
  by (auto simp: flushPending_def keeps_refl pushConditional_keeps split: if_splits)

lemma newBlock_keeps: "newBlock e req cnd st = Inr st' \<Longrightarrow> keeps st st'"
  by (auto simp: newBlock_def keeps_def nth_append split: option.splits)

lemma conditionLine_keeps:
  assumes "conditionLine e req cnd st = Inr st'"
  shows "keeps st st'"
proof -
  from assms obtain st1 where f: "flushPending st = Inr st1"
    and l: "(let t = templateObjs st1 ! cLGTemplate st1 in
       if conditionalResponses t \<noteq> [] then
         (case filter (\<lambda>r. condition (conditionObjs st1 ! r) = cnd) (conditionalResponses t) of
            r # _ \<Rightarrow>
              Inr (st1\<lparr>conditionalResponseItem := Some r,
                       pushAtEnd := False,
                       inConditionalResponses := True\<rparr>)
          | [] \<Rightarrow> newBlock e req cnd st1)
       else newBlock e req cnd st1) = Inr st'"
    by (auto simp: conditionLine_def bindE_eq_Inr)
  from l have "keeps st1 st'"
    by (auto simp: Let_def keeps_def split: if_splits list.splits dest: newBlock_keeps)
  with flushPending_keeps [OF f] show ?thesis by (rule keeps_trans)
qed

lemma nth_update_condition:
  "condition b' = condition (objs ! i) \<Longrightarrow> condition (objs[i := b'] ! r) = condition (objs ! r)"
  by (cases "i < length objs"; cases "r = i") (simp_all add: list_update_beyond)

lemma variationLine_keeps: "variationLine e v st = Inr st' \<Longrightarrow> keeps st st'"
  by (auto simp: variationLine_def bindE_eq_Inr Let_def keeps_def nth_update_condition
      split: if_splits option.splits)

lemma processLine_keeps:
  assumes "processLine e st line = Inr st'"
  shows "keeps st st'"
  using assms
proof (cases rule: processLine_cases)
  case (cond req c)
  then show ?thesis by (rule conditionLine_keeps [THEN keeps_entities])
next
  case plain
  then show ?thesis by (rule variationLine_keeps [THEN keeps_entities])
qed

lemma body_keeps:
  "forEachE (processLine e) st body = Inr st' \<Longrightarrow> keeps st st'"
proof (induction body arbitrary: st)
  case Nil
  then show ?case by (simp add: keeps_refl)
next
  case (Cons l ls)
  from Cons.prems obtain m where m: "processLine e st l = Inr m"
    and rest: "forEachE (processLine e) m ls = Inr st'"
    by (auto simp: bindE_eq_Inr)
  from processLine_keeps [OF m] Cons.IH [OF rest] show ?case by (rule keeps_trans)
qed

lemma processLine_sim:
  assumes wf: "blocksWF st" and r: "processLine e st line = Inr st'"
  shows "blocksWF st' \<and> absOf st' =
     specStep e (absOf st) (kindOf e (trim (drop 1 (removeTemplateLinkReferences line))))"
proof -
  let ?item = "removeTemplateLinkReferences line"
  let ?st1 = "st\<lparr>entities := foldl detectEntity (entities st) (parseEntity e ?item)\<rparr>"
  let ?payload = "trim (drop 1 ?item)"
  have "blocksWF ?st1 = blocksWF st"
    by (simp add: blocksWF_def)
  with wf have wf1: "blocksWF ?st1" by simp
  have a1: "absOf ?st1 = absOf st"
    by (simp add: absOf_def listedBlocks_def pendingBlocks_def openCondition_def blockView_def)
  from r have dec: "hasListDecoration ?item"
    by (auto simp: processLine_def Let_def split: if_splits)
  consider (c) "startsWith (CONDITION e) (trim ?payload)"
    | (d) "\<not> startsWith (CONDITION e) (trim ?payload)" "startsWith (DEFAULT e) (trim ?payload)"
    | (p) "\<not> startsWith (CONDITION e) (trim ?payload)" "\<not> startsWith (DEFAULT e) (trim ?payload)"
    by blast
  then show ?thesis
  proof cases
    case c
    with r dec have "conditionLine e True (trim (replaceFirst (CONDITION e) [] ?payload)) ?st1 = Inr st'"
      by (simp add: processLine_def Let_def)
    from conditionLine_sim [OF wf1 this] c a1 show ?thesis
      by (simp add: kindOf_def)
  next
    case d
    with r dec have "conditionLine e False (trim (replaceFirst (DEFAULT e) (ELSE e) ?payload)) ?st1 = Inr st'"
      by (simp add: processLine_def Let_def)
    from conditionLine_sim [OF wf1 this] d a1 show ?thesis
      by (simp add: kindOf_def)
  next
    case p
    with r dec have v: "variationLine e ?payload ?st1 = Inr st'"
      by (simp add: processLine_def Let_def)
    have k: "kindOf e ?payload = PlainLine ?payload"
      using p by (simp add: kindOf_def)
    show ?thesis
    proof (cases "inConditionalResponses st")
      case False
      then have nc: "\<not> inConditionalResponses ?st1" by simp
      from False have "openCondition st = None" by (simp add: openCondition_def)
      then have "specStep e (absOf st) (PlainLine ?payload) = absOf st"
        by (simp add: absOf_def)
      with variationLine_flat_sim [OF wf1 nc v] a1 k show ?thesis by simp
    next
      case True
      then have ic: "inConditionalResponses ?st1" by simp
      from variationLine_block_sim [OF wf1 ic v] obtain c where w: "blocksWF st'"
        and oc: "openCondition ?st1 = Some c"
        and ab: "absOf st' =
           (if accepted e ?payload
            then map (\<lambda>b. if fst b = c then (fst b, addVariation (snd b) ?payload) else b) (fst (absOf ?st1))
            else fst (absOf ?st1), Some c)"
        by blast
      from oc a1 have "absOf st = (fst (absOf st), Some c)"
        by (simp add: absOf_def)
      then have "specStep e (absOf st) (PlainLine ?payload) =
           (if accepted e ?payload
            then map (\<lambda>b. if fst b = c then (fst b, addVariation (snd b) ?payload) else b) (fst (absOf st))
            else fst (absOf st), Some c)"
        by (metis specStep.simps(3))
      with w ab a1 k show ?thesis by simp
    qed
  qed
qed

lemma body_blocksWF:
  assumes "forEachE (processLine e) st body = Inr st'" and "blocksWF st"
  shows "blocksWF st'"
  using assms
proof (induction body arbitrary: st)
  case Nil
  then show ?case by simp
next
  case (Cons l ls)
  from Cons.prems(1) obtain m where m: "processLine e st l = Inr m"
    and rest: "forEachE (processLine e) m ls = Inr st'"
    by (auto simp: bindE_eq_Inr)
  from processLine_sim [OF Cons.prems(2) m] have wm: "blocksWF m" by simp
  from Cons.IH [OF rest wm] show ?case .
qed

text \<open>On the lines that have no text behind their link references, the payload of the
  parser is the payload of the spec.\<close>

lemma body_sim:
  assumes "forEachE (processLine e) st body = Inr st'" and "blocksWF st"
    and "list_all noTextBehindLinks body"
  shows "absOf st' = foldl (specStep e) (absOf st) (map (classify e) body)"
  using assms
proof (induction body arbitrary: st)
  case Nil
  then show ?case by simp
next
  case (Cons l ls)
  from Cons.prems(1) obtain m where m: "processLine e st l = Inr m"
    and rest: "forEachE (processLine e) m ls = Inr st'"
    by (auto simp: bindE_eq_Inr)
  from Cons.prems(3) have nl: "noTextBehindLinks l" and nls: "list_all noTextBehindLinks ls"
    by simp_all
  from nl have strip: "removeTemplateLinkReferences l = collapseLinks l"
    by (rule strip_collapse)
  from m have "hasListDecoration (removeTemplateLinkReferences l)"
    by (auto simp: processLine_def Let_def split: if_splits)
  with strip have "dropWhile isWhitespace (collapseLinks l) = collapseLinks l"
    by (simp add: dropWhile_decorated)
  with strip processLine_sim [OF Cons.prems(2) m] have wm: "blocksWF m"
    and am: "absOf m = specStep e (absOf st) (classify e l)"
    by (simp_all add: classify_def payloadOf_def)
  from Cons.IH [OF rest wm nls] am show ?case by simp
qed

section \<open>Well-formed objects\<close>

lemma beginTemplate_found:
  assumes "filter (\<lambda>item. name (templateObjs ob ! item) = n) (LGTemplates ob) = r # rs"
    and "n \<noteq> []"
  shows "beginTemplate n ob =
     \<lparr>LGTemplates = LGTemplates ob, entities = entities ob,
      templateObjs = templateObjs ob, conditionObjs = conditionObjs ob,
      cLGTemplate = r, pushAtEnd = False,
      inConditionalResponses = False, conditionalResponseItem = None\<rparr>"
proof -
  from assms(1) have ne: "LGTemplates ob \<noteq> []" by auto
  have "r \<in> set (filter (\<lambda>item. name (templateObjs ob ! item) = n) (LGTemplates ob))"
    by (simp add: assms(1))
  then have "name (templateObjs ob ! r) = n" by simp
  with assms ne show ?thesis
    by (simp add: beginTemplate_def Let_def)
qed

lemma beginTemplate_new:
  assumes "filter (\<lambda>item. name (templateObjs ob ! item) = n) (LGTemplates ob) = []"
    and "n \<noteq> []"
  shows "beginTemplate n ob =
     \<lparr>LGTemplates = LGTemplates ob, entities = entities ob,
      templateObjs = templateObjs ob @ [new_LGTemplate n], conditionObjs = conditionObjs ob,
      cLGTemplate = length (templateObjs ob), pushAtEnd = True,
      inConditionalResponses = False, conditionalResponseItem = None\<rparr>"
  using assms
  by (cases "LGTemplates ob = []") (simp_all add: beginTemplate_def Let_def new_LGTemplate_def)

lemma beginTemplate_frame:
  shows "LGTemplates (beginTemplate n ob) = LGTemplates ob"
    and "conditionObjs (beginTemplate n ob) = conditionObjs ob"
    and "\<not> inConditionalResponses (beginTemplate n ob)"
    and "length (templateObjs ob) \<le> length (templateObjs (beginTemplate n ob))"
    and "\<And>i. i < length (templateObjs ob) \<Longrightarrow>
           templateObjs (beginTemplate n ob) ! i = templateObjs ob ! i"
  by (simp_all add: beginTemplate_def Let_def nth_append split: list.splits)

lemma beginTemplate_current:
  "cLGTemplate (beginTemplate n ob) \<in> set (LGTemplates ob)
   \<or> (length (templateObjs ob) \<le> cLGTemplate (beginTemplate n ob)
       \<and> cLGTemplate (beginTemplate n ob) < length (templateObjs (beginTemplate n ob))
       \<and> conditionalResponses (templateObjs (beginTemplate n ob) ! cLGTemplate (beginTemplate n ob)) = [])"
proof (cases "LGTemplates ob = []")
  case True
  then show ?thesis
    by (simp add: beginTemplate_def Let_def new_LGTemplate_def)
next
  case ne: False
  show ?thesis
  proof (cases "filter (\<lambda>item. name (templateObjs ob ! item) = n) (LGTemplates ob)")
    case Nil
    show ?thesis
    proof (cases "n = []")
      case True
      with Nil ne show ?thesis
        by (simp add: beginTemplate_def Let_def new_LGTemplate_def nth_append)
    next
      case False
      with Nil show ?thesis
        by (simp add: beginTemplate_new new_LGTemplate_def)
    qed
  next
    case (Cons r rs)
    have "r \<in> set (filter (\<lambda>item. name (templateObjs ob ! item) = n) (LGTemplates ob))"
      by (simp add: Cons)
    then have rin: "r \<in> set (LGTemplates ob)" and rn: "name (templateObjs ob ! r) = n"
      by simp_all
    show ?thesis
    proof (cases "n = []")
      case True
      with Cons ne rn show ?thesis
        by (simp add: beginTemplate_def Let_def new_LGTemplate_def)
    next
      case False
      with Cons rin show ?thesis
        by (simp add: beginTemplate_found)
    qed
  qed
qed

lemma templateWF_beginTemplate:
  assumes "templateWF ob c"
  shows "templateWF (beginTemplate n ob) c"
proof -
  from assms have c: "c < length (templateObjs ob)" by (simp add: templateWF_def)
  from beginTemplate_frame(5) [OF c] beginTemplate_frame(2,4) [where ob=ob and n=n] assms
  show ?thesis
    by (simp add: templateWF_def)
qed

lemma blocksWF_beginTemplate:
  assumes "objWF ob"
  shows "blocksWF (beginTemplate n ob)"
proof -
  let ?b = "beginTemplate n ob"
  have "templateWF ?b (cLGTemplate ?b)"
    using beginTemplate_current [of n ob]
  proof
    assume "cLGTemplate ?b \<in> set (LGTemplates ob)"
    with assms have "templateWF ob (cLGTemplate ?b)" by (simp add: objWF_def)
    then show ?thesis by (rule templateWF_beginTemplate)
  next
    assume "length (templateObjs ob) \<le> cLGTemplate ?b
       \<and> cLGTemplate ?b < length (templateObjs ?b)
       \<and> conditionalResponses (templateObjs ?b ! cLGTemplate ?b) = []"
    then show ?thesis by (simp add: templateWF_def)
  qed
  then show ?thesis
    using beginTemplate_frame(3) [where ob=ob and n=n]
    by (simp add: blocksWF_def templateWF_def Let_def)
qed

lemma keeps_templateWF:
  assumes "keeps st st'" and "c \<noteq> cLGTemplate st" and "templateWF st c"
  shows "templateWF st' c"
proof -
  let ?crs = "conditionalResponses (templateObjs st ! c)"
  from assms(1,2) have t: "templateObjs st' ! c = templateObjs st ! c"
    and l: "length (templateObjs st') = length (templateObjs st)"
    and g: "length (conditionObjs st) \<le> length (conditionObjs st')"
    and k: "\<forall>r < length (conditionObjs st). condition (conditionObjs st' ! r) = condition (conditionObjs st ! r)"
    by (simp_all add: keeps_def)
  from assms(3) have rng: "\<forall>r \<in> set ?crs. r < length (conditionObjs st)"
    by (simp add: templateWF_def)
  with k have m: "map (\<lambda>r. condition (conditionObjs st' ! r)) ?crs
      = map (\<lambda>r. condition (conditionObjs st ! r)) ?crs"
    by simp
  from assms(3) have "distinct (map (\<lambda>r. condition (conditionObjs st ! r)) ?crs)"
    by (simp add: templateWF_def)
  then have d: "distinct (map (\<lambda>r. condition (conditionObjs st' ! r)) ?crs)"
    by (simp only: m)
  from assms(3) have "c < length (templateObjs st)" by (simp add: templateWF_def)
  with d t l g rng show ?thesis
    by (auto simp: templateWF_def)
qed

lemma blocksWF_templateWF: "blocksWF st \<Longrightarrow> templateWF st (cLGTemplate st)"
  by (simp add: blocksWF_def templateWF_def Let_def)

lemma flushed_templateWF:
  assumes "blocksWF st" and "flushPending st = Inr st1"
  shows "templateWF st1 (cLGTemplate st1)"
  using flushPending_sim(4-6) [OF assms] by (simp add: templateWF_def)

lemma templateChunk_objWF:
  assumes run: "templateChunk e ob header body = Inr ob'" and wf: "objWF ob"
  shows "objWF ob'"
proof -
  let ?b = "beginTemplate (afterFirstSpace header) ob"
  from run obtain st st1 where body: "forEachE (processLine e) ?b body = Inr st"
    and fl: "flushPending st = Inr st1"
    and ch: "checkTemplate (commitTemplate st1) = Inr ob'"
    by (auto simp: templateChunk_def endTemplate_def bindE_eq_Inr)
  from body_blocksWF [OF body blocksWF_beginTemplate [OF wf]] have wst: "blocksWF st" .
  from keeps_trans [OF body_keeps [OF body] flushPending_keeps [OF fl]]
  have k: "keeps ?b st1" .
  then have c1: "cLGTemplate st1 = cLGTemplate ?b" and l1: "LGTemplates st1 = LGTemplates ob"
    by (simp_all add: keeps_def beginTemplate_frame)
  have cur: "templateWF st1 (cLGTemplate st1)"
    using wst fl by (rule flushed_templateWF)
  have listed: "templateWF st1 c" if "c \<in> set (LGTemplates ob)" for c
  proof (cases "c = cLGTemplate ?b")
    case True
    with cur c1 show ?thesis by simp
  next
    case False
    from wf that have "templateWF ob c" by (simp add: objWF_def)
    then have "templateWF ?b c" by (rule templateWF_beginTemplate)
    with k False show ?thesis by (rule keeps_templateWF)
  qed
  from ch have ob': "LGTemplates ob' = LGTemplates (commitTemplate st1)"
    "templateObjs ob' = templateObjs st1" "conditionObjs ob' = conditionObjs st1"
    by (auto simp: checkTemplate_def Let_def LGObject.truncate_def commitTemplate_def
        split: if_splits)
  have "set (LGTemplates (commitTemplate st1)) \<subseteq> insert (cLGTemplate st1) (set (LGTemplates ob))"
    by (auto simp: commitTemplate_def l1)
  with listed cur have "\<forall>c \<in> set (LGTemplates (commitTemplate st1)). templateWF st1 c"
    by auto
  with ob' show ?thesis
    by (simp add: objWF_def templateWF_def)
qed

lemma entityChunk_templates:
  "entityChunk e ob header = Inr ob' \<Longrightarrow>
   LGTemplates ob' = LGTemplates ob \<and> templateObjs ob' = templateObjs ob
   \<and> conditionObjs ob' = conditionObjs ob"
  by (auto simp: entityChunk_def Let_def split: list.splits if_splits)

lemma toLG_chunk_objWF:
  assumes "toLG_chunk e p chunk = Inr p'"
    and "\<exists>ob. LGObject p = Some ob \<and> objWF ob"
  shows "\<exists>ob. LGObject p' = Some ob \<and> objWF ob"
proof -
  from assms(2) obtain ob where ob: "LGObject p = Some ob" and wf: "objWF ob"
    by blast
  obtain header body where ls: "splitLines (trim chunk) = header # body"
    using splitLines_nonempty [of "trim chunk"] by (cases "splitLines (trim chunk)") auto
  consider (t) "startsWith (INTENT e) (trim chunk)"
    | (f) "\<not> startsWith (INTENT e) (trim chunk)" "startsWith (FILEREF e) (trim chunk)"
    | (n) "\<not> startsWith (INTENT e) (trim chunk)" "\<not> startsWith (FILEREF e) (trim chunk)"
    by blast
  then show ?thesis
  proof cases
    case t
    with assms(1) ob ls obtain ob' where "templateChunk e ob header body = Inr ob'"
      and "p' = p\<lparr>LGObject := Some ob'\<rparr>"
      by (auto simp: toLG_chunk_def bindE_eq_Inr)
    with templateChunk_objWF [OF _ wf] show ?thesis by simp
  next
    case f
    with assms(1) ob ls have "fileRefChunk p header = Inr p'"
      by (simp add: toLG_chunk_def)
    then have "LGObject p' = LGObject p"
      by (auto simp: fileRefChunk_def Let_def split: option.splits if_splits)
    with ob wf show ?thesis by simp
  next
    case n
    with assms(1) ob ls obtain ob' where ec: "entityChunk e ob header = Inr ob'"
      and "p' = p\<lparr>LGObject := Some ob'\<rparr>"
      by (auto simp: toLG_chunk_def bindE_eq_Inr Let_def split: if_splits)
    with entityChunk_templates [OF ec] wf show ?thesis
      by (simp add: objWF_def templateWF_def)
  qed
qed

lemma reachable_objWF:
  assumes "forEachE (toLG_chunk e) withLGObject cs = Inr p"
  shows "\<exists>ob. LGObject p = Some ob \<and> objWF ob"
  using assms
proof (rule forEachE_invariant)
  show "\<exists>ob. LGObject withLGObject = Some ob \<and> objWF ob"
    by (simp add: withLGObject_LGObject new_LGObject_def objWF_def)
next
  fix a x b
  assume "\<exists>ob. LGObject a = Some ob \<and> objWF ob" and "toLG_chunk e a x = Inr b"
  then show "\<exists>ob. LGObject b = Some ob \<and> objWF ob"
    using toLG_chunk_objWF by blast
qed

section \<open>Two sections, merged\<close>

text \<open>The merge on two sections: one block for one condition, two blocks in order for
  two conditions.\<close>

lemma mergedInto_same_condition:
  "mergedInto [] [(c, xs), (c, ys)] = [(c, foldl addVariation [] (xs @ ys))]"
  by (simp add: mergedInto_def variationsIn_def addVariation_def)

lemma mergedInto_two_conditions:
  "c \<noteq> d \<Longrightarrow>
   mergedInto [] [(c, xs), (d, ys)] = [(c, foldl addVariation [] xs), (d, foldl addVariation [] ys)]"
  by (simp add: mergedInto_def variationsIn_def addVariation_def)

section \<open>Condition lines merge\<close>

text \<open>
  Take any object that \<open>toLG\<close> has reached and a template chunk that is read without
  error, none of whose body lines has text behind its link references. In the object
  that \<open>toLG\<close> returns, the blocks of the template of the chunk are the sections of the
  body merged into the blocks that template had before: condition lines with the same
  normalised condition share one block, which holds the accepted variation lines of
  all of them in order, each once; condition lines with different conditions have
  blocks of their own, in the order of their first lines. (Plain lines that the
  validator refuses are dropped.)
\<close>

lemma condition_lines_merge:
  assumes "forEachE (toLG_chunk e) withLGObject pre = Inr p"
    and "LGObject p = Some ob"
    and "startsWith (INTENT e) (trim chunk)"
    and "splitLines (trim chunk) = header # body"
    and "list_all noTextBehindLinks body"
    and "toLG e (Array (pre @ [chunk])) = Inr p'"
  shows "\<exists>ob'. LGObject p' = Some ob'
     \<and> map (blockView ob')
         (conditionalResponses
            (templateObjs ob' ! cLGTemplate (beginTemplate (afterFirstSpace header) ob)))
       = mergedInto (listedBlocks (beginTemplate (afterFirstSpace header) ob))
           (sectionsOf e (map (classify e) body))"
proof -
  let ?b = "beginTemplate (afterFirstSpace header) ob"
  from assms(1,6) have "toLG_chunk e p chunk = Inr p'"
    by (auto simp: toLG_Array forEachE_append bindE_Inr bindE_eq_Inr)
  with assms(2-4) obtain ob' where tc: "templateChunk e ob header body = Inr ob'"
    and p': "p' = p\<lparr>LGObject := Some ob'\<rparr>"
    by (auto simp: toLG_chunk_def bindE_eq_Inr)
  from tc obtain st st1 where body: "forEachE (processLine e) ?b body = Inr st"
    and fl: "flushPending st = Inr st1"
    and ch: "checkTemplate (commitTemplate st1) = Inr ob'"
    by (auto simp: templateChunk_def endTemplate_def bindE_eq_Inr)
  from reachable_objWF [OF assms(1)] assms(2) have wf: "objWF ob" by simp
  have wb: "blocksWF ?b" using wf by (rule blocksWF_beginTemplate)
  from body_blocksWF [OF body wb] have wst: "blocksWF st" .
  from body_sim [OF body wb assms(5)]
  have ab: "absOf st = foldl (specStep e) (absOf ?b) (map (classify e) body)" .
  have "absOf ?b = (listedBlocks ?b, None)"
    using beginTemplate_frame(3) [where ob=ob and n="afterFirstSpace header"]
    by (simp add: absOf_def pendingBlocks_def openCondition_def)
  moreover have "distinct (map fst (listedBlocks ?b))"
    using wb by (simp add: blocksWF_def Let_def listedBlocks_def blockView_def comp_def)
  ultimately have "absOf st = (mergedInto (listedBlocks ?b) (sectionsOf e (map (classify e) body)),
      lastCondition (sectionsOf e (map (classify e) body)))"
    using ab by (simp add: specStep_sections)
  then have bl: "listedBlocks st @ pendingBlocks st
      = mergedInto (listedBlocks ?b) (sectionsOf e (map (classify e) body))"
    by (simp add: absOf_def)
  from flushPending_sim(1) [OF wst fl] bl
  have l1: "listedBlocks st1 = mergedInto (listedBlocks ?b) (sectionsOf e (map (classify e) body))"
    by simp
  from keeps_trans [OF body_keeps [OF body] flushPending_keeps [OF fl]]
  have c1: "cLGTemplate st1 = cLGTemplate ?b"
    by (simp add: keeps_def)
  from ch have "ob' = LGObject.truncate (commitTemplate st1)"
    by (auto simp: checkTemplate_def Let_def split: if_splits)
  then have to: "templateObjs ob' = templateObjs st1" "conditionObjs ob' = conditionObjs st1"
    by (simp_all add: LGObject.truncate_def commitTemplate_def)
  have "map (blockView ob') (conditionalResponses (templateObjs ob' ! cLGTemplate ?b))
      = listedBlocks st1"
    by (simp add: listedBlocks_def blockView_def to c1)
  with l1 p' show ?thesis by simp
qed

text \<open>For example, on a new template with the body lines \<^verbatim>\<open>- IF: a\<close>, \<^verbatim>\<open>- x\<close>,
  \<^verbatim>\<open>- IF: b\<close>, \<^verbatim>\<open>- y\<close>, \<^verbatim>\<open>- IF: a\<close>, \<^verbatim>\<open>- x\<close>, \<^verbatim>\<open>- z\<close>:\<close>

lemma condition_lines_merge_example:
  "\<exists>p' ob'. toLG lgEnv (Array [''# T\<newline>- IF: a\<newline>- x\<newline>- IF: b\<newline>- y\<newline>- IF: a\<newline>- x\<newline>- z'']) = Inr p'
     \<and> LGObject p' = Some ob'
     \<and> map (blockView ob') (conditionalResponses (templateObjs ob' ! 0))
         = [(''a'', [''x'', ''z'']), (''b'', [''y''])]"
proof -
  let ?chunk = "''# T\<newline>- IF: a\<newline>- x\<newline>- IF: b\<newline>- y\<newline>- IF: a\<newline>- x\<newline>- z''"
  let ?body = "[''- IF: a'', ''- x'', ''- IF: b'', ''- y'', ''- IF: a'', ''- x'', ''- z'']"
  let ?b = "beginTemplate (afterFirstSpace ''# T'') new_LGObject"
  have a: "forEachE (toLG_chunk lgEnv) withLGObject [] = Inr withLGObject"
    by simp
  have b: "LGObject withLGObject = Some new_LGObject"
    by (rule withLGObject_LGObject)
  have c: "startsWith (INTENT lgEnv) (trim ?chunk)"
    by code_simp
  have d: "splitLines (trim ?chunk) = ''# T'' # ?body"
    by code_simp
  have f: "list_all noTextBehindLinks ?body"
    by code_simp
  have "\<not> isl (toLG lgEnv (Array ([] @ [?chunk])))"
    by code_simp
  then obtain p' where g: "toLG lgEnv (Array ([] @ [?chunk])) = Inr p'"
    by (cases "toLG lgEnv (Array ([] @ [?chunk]))") auto
  have h: "mergedInto (listedBlocks ?b) (sectionsOf lgEnv (map (classify lgEnv) ?body))
      = [(''a'', [''x'', ''z'']), (''b'', [''y''])]"
    by code_simp
  have i: "cLGTemplate ?b = 0"
    by code_simp
  from condition_lines_merge [OF a b c d f g]
  have "\<exists>ob'. LGObject p' = Some ob'
     \<and> map (blockView ob') (conditionalResponses (templateObjs ob' ! 0))
         = [(''a'', [''x'', ''z'']), (''b'', [''y''])]"
    by (simp only: h i)
  then obtain ob' where o: "LGObject p' = Some ob'"
    and m: "map (blockView ob') (conditionalResponses (templateObjs ob' ! 0))
         = [(''a'', [''x'', ''z'']), (''b'', [''y''])]"
    by (elim exE conjE)
  from g have g': "toLG lgEnv (Array [?chunk]) = Inr p'"
    by (simp only: append_Nil)
  from g' o m show ?thesis
    by (intro exI conjI)
qed

text \<open>When the last condition line of the chunk is new to the template, the template
  is listed, and the merged blocks are in the result of \<open>toLG\<close>.\<close>

lemma condition_lines_merge_listed:
  "map_sum id (\<lambda>p. map_option templateView (LGObject p))
     (toLG lgEnv (Array
        [''# T\<newline>- IF: a\<newline>- x\<newline>- IF: b\<newline>- y\<newline>- IF: a\<newline>- x\<newline>- z\<newline>- IF: c\<newline>- w'']))
     = Inr (Some [(''T'', [], [(''a'', [''x'', ''z'']), (''b'', [''y'']), (''c'', [''w''])])])"
  by code_simp

text \<open>
  Claim C3. Condition lines of one normalised condition should merge into one block
  that holds the variation lines of all of them, each once, and condition lines of
  different normalised conditions should have blocks of their own. The parser compares
  the lines as \<open>removeTemplateLinkReferences\<close> leaves them, that is without the text
  behind their last link reference. In the first chunk below the variation lines
  \<^verbatim>\<open>see [a](b) now\<close> and \<^verbatim>\<open>see [a](b) later\<close> of the two sections of condition \<open>a\<close>
  are both read as \<^verbatim>\<open>see [a]\<close>, and the merged block holds that one text instead of
  \<^verbatim>\<open>see [a] now\<close> and \<^verbatim>\<open>see [a] later\<close>. In the second chunk the condition lines
  \<^verbatim>\<open>IF: p [a](b) x\<close> and \<^verbatim>\<open>IF: p [a](b) y\<close>, whose normalised conditions
  \<^verbatim>\<open>p [a] x\<close> and \<^verbatim>\<open>p [a] y\<close> differ, share the one block \<^verbatim>\<open>p [a]\<close>. (Both chunks end
  in a condition line that is new to the template, so that the template is listed.)
\<close>

theorem merged_blocks_lose_text_behind_links:
  "map_sum id (\<lambda>p. map_option templateView (LGObject p))
     (toLG lgEnv (Array
        [''# T\<newline>- IF: a\<newline>- see [a](b) now\<newline>- IF: a\<newline>- see [a](b) later\<newline>- IF: z\<newline>- w'']))
     = Inr (Some [(''T'', [], [(''a'', [''see [a]'']), (''z'', [''w''])])])
   \<and> map_sum id (\<lambda>p. map_option templateView (LGObject p))
     (toLG lgEnv (Array
        [''# T\<newline>- IF: p [a](b) x\<newline>- u\<newline>- IF: p [a](b) y\<newline>- v\<newline>- IF: z\<newline>- w'']))
     = Inr (Some [(''T'', [], [(''p [a]'', [''u'', ''v'']), (''z'', [''w''])])])"
  by code_simp

text \<open>With the text behind the link references kept, the same lines merge as the claim
  says.\<close>

lemma sections_of_lines_with_links:
  "mergedInto [] (sectionsOf lgEnv (map (classify lgEnv)
      [''- IF: a'', ''- see [a](b) now'', ''- IF: a'', ''- see [a](b) later'', ''- IF: z'', ''- w'']))
     = [(''a'', [''see [a] now'', ''see [a] later'']), (''z'', [''w''])]
   \<and> mergedInto [] (sectionsOf lgEnv (map (classify lgEnv)
      [''- IF: p [a](b) x'', ''- u'', ''- IF: p [a](b) y'', ''- v'', ''- IF: z'', ''- w'']))
     = [(''p [a] x'', [''u'']), (''p [a] y'', [''v'']), (''z'', [''w''])]"
  by code_simp

section \<open>Bodies of plain lines\<close>

lemma classify_plain:
  assumes "classify e line = PlainLine p"
  shows "\<not> startsWith (CONDITION e) (trim (payloadOf line))"
    and "\<not> startsWith (DEFAULT e) (trim (payloadOf line))"
  using assms by (auto simp: classify_def kindOf_def split: if_splits)

lemma plain_line:
  assumes nc: "\<not> inConditionalResponses st"
    and pl: "plainLine e line"
    and c: "cLGTemplate st < length (templateObjs st)"
  shows "\<exists>st'. processLine e st line = Inr st'
     \<and> templateObjs st' = (templateObjs st)[cLGTemplate st :=
          (templateObjs st ! cLGTemplate st)\<lparr>variations :=
             foldl addVariation (variations (templateObjs st ! cLGTemplate st))
               (acceptedPayloads e [line])\<rparr>]
     \<and> conditionObjs st' = conditionObjs st \<and> LGTemplates st' = LGTemplates st
     \<and> cLGTemplate st' = cLGTemplate st \<and> pushAtEnd st' = pushAtEnd st
     \<and> \<not> inConditionalResponses st'"
proof -
  let ?v = "payloadOf line"
  let ?t = "templateObjs st ! cLGTemplate st"
  let ?st1 = "st\<lparr>entities := foldl detectEntity (entities st)
                (parseEntity e (removeTemplateLinkReferences line))\<rparr>"
  from pl have dec: "hasListDecoration (removeTemplateLinkReferences line)"
    and nl: "noTextBehindLinks line"
    and k: "classify e line = PlainLine ?v"
    and nt: "\<not> isl (validateVariationItem e ?v)"
    by (simp_all add: plainLine_def hasListDecoration_stripped)
  from nl have strip: "removeTemplateLinkReferences line = collapseLinks line"
    by (rule strip_collapse)
  from dec strip have dw: "dropWhile isWhitespace (collapseLinks line) = collapseLinks line"
    by (simp add: dropWhile_decorated)
  from nt obtain ok where ok: "validateVariationItem e ?v = Inr ok"
    by (cases "validateVariationItem e ?v") auto
  have acc: "accepted e ?v = ok" using ok by (simp add: accepted_def)
  from classify_plain [OF k] dec
  have pr: "processLine e st line = variationLine e ?v ?st1"
    by (simp add: processLine_def Let_def payloadOf_def strip dw)
  have same: "(templateObjs st)[cLGTemplate st := ?t\<lparr>variations := variations ?t\<rparr>] = templateObjs st"
    by simp
  show ?thesis
  proof (cases "ok \<and> ?v \<notin> set (variations ?t)")
    case True
    with ok nc have "variationLine e ?v ?st1 =
        Inr (?st1\<lparr>templateObjs := (templateObjs st)[cLGTemplate st :=
               ?t\<lparr>variations := variations ?t @ [?v]\<rparr>]\<rparr>)"
      by (simp add: variationLine_def bindE_Inr Let_def)
    with pr True acc nc show ?thesis
      by (simp add: acceptedPayloads_def addVariation_def)
  next
    case False
    with ok nc have "variationLine e ?v ?st1 = Inr ?st1"
      by (auto simp: variationLine_def bindE_Inr Let_def)
    with pr False acc nc same show ?thesis
      by (auto simp: acceptedPayloads_def addVariation_def)
  qed
qed

lemma acceptedPayloads_Cons:
  "acceptedPayloads e (l # ls) = acceptedPayloads e [l] @ acceptedPayloads e ls"
  by (simp add: acceptedPayloads_def)

lemma plain_body:
  assumes "\<not> inConditionalResponses st"
    and "plainBody e body"
    and "cLGTemplate st < length (templateObjs st)"
  shows "\<exists>st'. forEachE (processLine e) st body = Inr st'
     \<and> templateObjs st' = (templateObjs st)[cLGTemplate st :=
          (templateObjs st ! cLGTemplate st)\<lparr>variations :=
             foldl addVariation (variations (templateObjs st ! cLGTemplate st))
               (acceptedPayloads e body)\<rparr>]
     \<and> conditionObjs st' = conditionObjs st \<and> LGTemplates st' = LGTemplates st
     \<and> cLGTemplate st' = cLGTemplate st \<and> pushAtEnd st' = pushAtEnd st
     \<and> \<not> inConditionalResponses st'"
  using assms
proof (induction body arbitrary: st)
  case Nil
  then show ?case by (simp add: acceptedPayloads_def)
next
  case (Cons l ls)
  from Cons.prems(2) have pl: "plainLine e l" and pls: "plainBody e ls"
    by (simp_all add: plainBody_def)
  let ?c = "cLGTemplate st"
  let ?t = "templateObjs st ! ?c"
  from plain_line [OF Cons.prems(1) pl Cons.prems(3)] obtain m where
    m: "processLine e st l = Inr m"
    and tm: "templateObjs m = (templateObjs st)[?c :=
          ?t\<lparr>variations := foldl addVariation (variations ?t) (acceptedPayloads e [l])\<rparr>]"
    and fm: "conditionObjs m = conditionObjs st" "LGTemplates m = LGTemplates st"
      "cLGTemplate m = ?c" "pushAtEnd m = pushAtEnd st" "\<not> inConditionalResponses m"
    by blast
  have cm: "cLGTemplate m < length (templateObjs m)"
    using Cons.prems(3) by (simp add: tm fm)
  from Cons.IH [OF fm(5) pls cm] obtain st' where
    r: "forEachE (processLine e) m ls = Inr st'"
    and ts: "templateObjs st' = (templateObjs m)[cLGTemplate m :=
          (templateObjs m ! cLGTemplate m)\<lparr>variations :=
             foldl addVariation (variations (templateObjs m ! cLGTemplate m))
               (acceptedPayloads e ls)\<rparr>]"
    and fs: "conditionObjs st' = conditionObjs m" "LGTemplates st' = LGTemplates m"
      "cLGTemplate st' = cLGTemplate m" "pushAtEnd st' = pushAtEnd m"
      "\<not> inConditionalResponses st'"
    by blast
  have "forEachE (processLine e) st (l # ls) = Inr st'"
    using m r by (simp add: bindE_Inr)
  moreover have "templateObjs st' = (templateObjs st)[?c :=
          ?t\<lparr>variations := foldl addVariation (variations ?t) (acceptedPayloads e (l # ls))\<rparr>]"
    using Cons.prems(3)
    by (simp add: ts tm fm acceptedPayloads_Cons [of e l ls])
  ultimately show ?case
    using fm fs by simp
qed

lemma foldl_addVariation_nonempty:
  assumes "acc \<noteq> [] \<or> xs \<noteq> []"
  shows "foldl addVariation acc xs \<noteq> []"
proof
  assume "foldl addVariation acc xs = []"
  then have "set (foldl addVariation acc xs) = {}" by simp
  then have "set acc \<union> set xs = {}" by (simp only: foldl_addVariation_set)
  with assms show False by simp
qed

lemma foldl_addVariation_present:
  "set xs \<subseteq> set acc \<Longrightarrow> foldl addVariation acc xs = acc"
  by (induction xs arbitrary: acc) (auto simp: addVariation_def)

lemma foldl_addVariation_twice:
  "foldl addVariation [] (xs @ xs) = foldl addVariation [] xs"
proof -
  have "set xs \<subseteq> set (foldl addVariation [] xs)"
    by (simp add: foldl_addVariation_set)
  then show ?thesis
    by (simp add: foldl_addVariation_present)
qed

lemma templateChunk_plain:
  assumes pb: "plainBody e body"
    and c: "cLGTemplate (beginTemplate (afterFirstSpace header) ob)
              < length (templateObjs (beginTemplate (afterFirstSpace header) ob))"
    and ne: "foldl addVariation
               (variations (templateObjs (beginTemplate (afterFirstSpace header) ob)
                  ! cLGTemplate (beginTemplate (afterFirstSpace header) ob)))
               (acceptedPayloads e body) \<noteq> []"
  shows "\<exists>ob'. templateChunk e ob header body = Inr ob'
     \<and> templateObjs ob' =
         (templateObjs (beginTemplate (afterFirstSpace header) ob))
           [cLGTemplate (beginTemplate (afterFirstSpace header) ob) :=
              (templateObjs (beginTemplate (afterFirstSpace header) ob)
                 ! cLGTemplate (beginTemplate (afterFirstSpace header) ob))
              \<lparr>variations := foldl addVariation
                 (variations (templateObjs (beginTemplate (afterFirstSpace header) ob)
                    ! cLGTemplate (beginTemplate (afterFirstSpace header) ob)))
                 (acceptedPayloads e body)\<rparr>]
     \<and> conditionObjs ob' = conditionObjs ob
     \<and> LGTemplates ob' =
         (if afterFirstSpace header \<noteq> [] \<and> pushAtEnd (beginTemplate (afterFirstSpace header) ob)
          then LGTemplates ob @ [cLGTemplate (beginTemplate (afterFirstSpace header) ob)]
          else LGTemplates ob)"
proof -
  let ?b = "beginTemplate (afterFirstSpace header) ob"
  let ?c = "cLGTemplate ?b"
  let ?t = "templateObjs ?b ! ?c"
  let ?vs = "foldl addVariation (variations ?t) (acceptedPayloads e body)"
  have nc: "\<not> inConditionalResponses ?b" by (rule beginTemplate_frame(3))
  from plain_body [OF nc pb c] obtain st where
    run: "forEachE (processLine e) ?b body = Inr st"
    and ts: "templateObjs st = (templateObjs ?b)[?c := ?t\<lparr>variations := ?vs\<rparr>]"
    and fs: "conditionObjs st = conditionObjs ?b" "LGTemplates st = LGTemplates ?b"
      "cLGTemplate st = ?c" "pushAtEnd st = pushAtEnd ?b" "\<not> inConditionalResponses st"
    by blast
  have fl: "flushPending st = Inr st"
    using fs(5) by (simp add: flushPending_def)
  have cur: "templateObjs st ! cLGTemplate st = ?t\<lparr>variations := ?vs\<rparr>"
    using c by (simp add: ts fs)
  have nm: "name ?t = afterFirstSpace header"
    by (rule beginTemplate_name)
  let ?st2 = "commitTemplate st"
  have c2: "templateObjs ?st2 = templateObjs st" "cLGTemplate ?st2 = cLGTemplate st"
    "conditionObjs ?st2 = conditionObjs st"
    "LGTemplates ?st2 = (if afterFirstSpace header \<noteq> [] \<and> pushAtEnd ?b
       then LGTemplates ob @ [?c] else LGTemplates ob)"
    using cur nm by (simp_all add: commitTemplate_def fs beginTemplate_frame)
  have "checkTemplate ?st2 = Inr (LGObject.truncate ?st2)"
    using ne by (simp add: checkTemplate_def Let_def c2 cur)
  then have "templateChunk e ob header body = Inr (LGObject.truncate ?st2)"
    using run fl by (simp add: templateChunk_def endTemplate_def bindE_Inr)
  then show ?thesis
    using c2 ts fs by (simp add: LGObject.truncate_def beginTemplate_frame)
qed

lemma toLG_chunk_template:
  assumes "LGObject p = Some ob" and "startsWith (INTENT e) (trim chunk)"
    and "splitLines (trim chunk) = header # body"
    and "templateChunk e ob header body = Inr ob'"
  shows "toLG_chunk e p chunk = Inr (p\<lparr>LGObject := Some ob'\<rparr>)"
  using assms by (simp add: toLG_chunk_def bindE_Inr)

lemma templateView_unchanged:
  assumes "\<forall>r \<in> set L. r < length (templateObjs ob) \<and> templateObjs ob' ! r = templateObjs ob ! r"
    and "conditionObjs ob' = conditionObjs ob"
  shows "map (\<lambda>r. let t = templateObjs ob' ! r in
               (name t, variations t,
                map (\<lambda>b. (condition (conditionObjs ob' ! b), cr_variations (conditionObjs ob' ! b)))
                  (conditionalResponses t))) L
       = map (\<lambda>r. let t = templateObjs ob ! r in
               (name t, variations t,
                map (\<lambda>b. (condition (conditionObjs ob ! b), cr_variations (conditionObjs ob ! b)))
                  (conditionalResponses t))) L"
  using assms by (simp add: Let_def)

section \<open>Two chunks of one template name\<close>

text \<open>
  Two chunks of plain variation lines merge. Let \<open>toLG\<close> have read the chunks \<open>pre\<close>
  without error, and let two template chunks follow whose headers give the same name,
  not empty and not among the templates listed so far, and whose body lines are all
  plain variation lines, one of the first chunk at least being accepted. Then parsing
  succeeds and lists, behind the templates that were there, a single template of that
  name with no block, whose variations are the accepted payloads of the first chunk
  followed by those of the second, each kept once. After the first chunk alone the
  template holds the accepted payloads of that chunk, each once, and reading a body a
  second time adds nothing.
\<close>

lemma plain_chunks_merge:
  assumes reach: "forEachE (toLG_chunk e) withLGObject pre = Inr p"
    and ob: "LGObject p = Some ob"
    and i1: "startsWith (INTENT e) (trim c1)" and l1: "splitLines (trim c1) = h1 # b1"
    and i2: "startsWith (INTENT e) (trim c2)" and l2: "splitLines (trim c2) = h2 # b2"
    and n1: "afterFirstSpace h1 = n" and n2: "afterFirstSpace h2 = n" and nn: "n \<noteq> []"
    and fresh: "n \<notin> set (templateNames ob)"
    and p1: "plainBody e b1" and p2: "plainBody e b2"
    and some: "acceptedPayloads e b1 \<noteq> []"
  shows "(\<exists>p' ob'. toLG e (Array (pre @ [c1, c2])) = Inr p' \<and> LGObject p' = Some ob'
      \<and> templateView ob' = templateView ob
           @ [(n, foldl addVariation [] (acceptedPayloads e b1 @ acceptedPayloads e b2), [])])
     \<and> (\<exists>p' ob'. toLG e (Array (pre @ [c1])) = Inr p' \<and> LGObject p' = Some ob'
      \<and> templateView ob' = templateView ob
           @ [(n, foldl addVariation [] (acceptedPayloads e b1), [])])
     \<and> foldl addVariation [] (acceptedPayloads e b1 @ acceptedPayloads e b1)
          = foldl addVariation [] (acceptedPayloads e b1)"
proof -
  let ?objs = "templateObjs ob"
  let ?L = "LGTemplates ob"
  let ?k = "length ?objs"
  let ?xs1 = "acceptedPayloads e b1"
  let ?xs2 = "acceptedPayloads e b2"
  let ?vs1 = "foldl addVariation [] ?xs1"
  let ?vs2 = "foldl addVariation ?vs1 ?xs2"
  let ?t1 = "\<lparr>name = n, variations = ?vs1, conditionalResponses = []\<rparr>"
  let ?t2 = "\<lparr>name = n, variations = ?vs2, conditionalResponses = []\<rparr>"
  from reachable_objWF [OF reach] ob have wf: "objWF ob" by simp
  then have rng: "\<forall>r \<in> set ?L. r < ?k"
    by (simp add: objWF_def templateWF_def)
  from fresh have nf: "\<forall>r \<in> set ?L. name (?objs ! r) \<noteq> n"
    by (auto simp: templateNames_def templatesOf_def)
  then have f1: "filter (\<lambda>item. name (?objs ! item) = n) ?L = []"
    by (simp add: filter_empty_conv)
  note b1 = beginTemplate_new [OF f1 nn]
  have v1: "?vs1 \<noteq> []"
    using some by (simp add: foldl_addVariation_nonempty)
  have "\<exists>ob1. templateChunk e ob h1 b1 = Inr ob1
     \<and> templateObjs ob1 = ?objs @ [?t1] \<and> conditionObjs ob1 = conditionObjs ob
     \<and> LGTemplates ob1 = ?L @ [?k]"
    using templateChunk_plain [of e b1 h1 ob] p1 v1 nn
    by (simp add: n1 b1 new_LGTemplate_def)
  then obtain ob1 where r1: "templateChunk e ob h1 b1 = Inr ob1"
    and t1: "templateObjs ob1 = ?objs @ [?t1]" and co1: "conditionObjs ob1 = conditionObjs ob"
    and L1: "LGTemplates ob1 = ?L @ [?k]"
    by blast
  have step1: "toLG_chunk e p c1 = Inr (p\<lparr>LGObject := Some ob1\<rparr>)"
    using ob i1 l1 r1 by (rule toLG_chunk_template)
  have "filter (\<lambda>item. name ((?objs @ [?t1]) ! item) = n) ?L = []"
    using rng nf by (simp add: filter_empty_conv nth_append)
  then have f2: "filter (\<lambda>item. name (templateObjs ob1 ! item) = n) (LGTemplates ob1) = [?k]"
    by (simp add: t1 L1)
  note b2 = beginTemplate_found [OF f2 nn]
  have v2: "?vs2 \<noteq> []"
    using v1 by (simp add: foldl_addVariation_nonempty)
  have "\<exists>ob2. templateChunk e ob1 h2 b2 = Inr ob2
     \<and> templateObjs ob2 = ?objs @ [?t2] \<and> conditionObjs ob2 = conditionObjs ob
     \<and> LGTemplates ob2 = ?L @ [?k]"
    using templateChunk_plain [of e b2 h2 ob1] p2 v2 nn
    by (simp add: n2 b2 t1 co1 L1)
  then obtain ob2 where r2: "templateChunk e ob1 h2 b2 = Inr ob2"
    and t2: "templateObjs ob2 = ?objs @ [?t2]" and co2: "conditionObjs ob2 = conditionObjs ob"
    and L2: "LGTemplates ob2 = ?L @ [?k]"
    by blast
  have step2: "toLG_chunk e (p\<lparr>LGObject := Some ob1\<rparr>) c2
      = Inr (p\<lparr>LGObject := Some ob2\<rparr>)"
    using toLG_chunk_template [of "p\<lparr>LGObject := Some ob1\<rparr>" ob1 e c2 h2 b2 ob2] i2 l2 r2
    by simp
  have run: "toLG e (Array (pre @ [c1, c2])) = Inr (p\<lparr>LGObject := Some ob2\<rparr>)"
    using reach step1 step2 by (simp add: toLG_Array forEachE_append bindE_Inr)
  have old: "\<forall>r \<in> set ?L. r < length ?objs \<and> templateObjs ob2 ! r = ?objs ! r"
    using rng by (simp add: t2 nth_append)
  have "templateView ob2 = templateView ob @ [(n, ?vs2, [])]"
    unfolding templateView_def L2 map_append
    using templateView_unchanged [OF old co2] by (simp add: t2)
  then have tv: "templateView ob2 = templateView ob @ [(n, foldl addVariation [] (?xs1 @ ?xs2), [])]"
    by (simp only: foldl_append)
  have tw: "foldl addVariation [] (?xs1 @ ?xs1) = foldl addVariation [] ?xs1"
    by (rule foldl_addVariation_twice)
  have o2: "LGObject (p\<lparr>LGObject := Some ob2\<rparr>) = Some ob2"
    by simp
  have run1: "toLG e (Array (pre @ [c1])) = Inr (p\<lparr>LGObject := Some ob1\<rparr>)"
    using reach step1 by (simp add: toLG_Array forEachE_append bindE_Inr)
  have old1: "\<forall>r \<in> set ?L. r < length ?objs \<and> templateObjs ob1 ! r = ?objs ! r"
    using rng by (simp add: t1 nth_append)
  have tv1: "templateView ob1 = templateView ob @ [(n, ?vs1, [])]"
    unfolding templateView_def L1 map_append
    using templateView_unchanged [OF old1 co1] by (simp add: t1)
  have o1: "LGObject (p\<lparr>LGObject := Some ob1\<rparr>) = Some ob1"
    by simp
  from run o2 tv have two: "\<exists>p' ob'. toLG e (Array (pre @ [c1, c2])) = Inr p' \<and> LGObject p' = Some ob'
      \<and> templateView ob' = templateView ob
           @ [(n, foldl addVariation [] (?xs1 @ ?xs2), [])]"
    by blast
  from run1 o1 tv1 have one: "\<exists>p' ob'. toLG e (Array (pre @ [c1])) = Inr p' \<and> LGObject p' = Some ob'
      \<and> templateView ob' = templateView ob @ [(n, ?vs1, [])]"
    by blast
  from two one tw show ?thesis
    by (intro conjI)
qed

lemma plain_chunks_merge_example:
  "forEachE (toLG_chunk lgEnv) withLGObject [] = Inr withLGObject
   \<and> LGObject withLGObject = Some new_LGObject
   \<and> startsWith (INTENT lgEnv) (trim ''# T\<newline>- hi\<newline>- ho'')
   \<and> splitLines (trim ''# T\<newline>- hi\<newline>- ho'') = ''# T'' # [''- hi'', ''- ho'']
   \<and> startsWith (INTENT lgEnv) (trim ''# T\<newline>- ho\<newline>- hey'')
   \<and> splitLines (trim ''# T\<newline>- ho\<newline>- hey'') = ''# T'' # [''- ho'', ''- hey'']
   \<and> afterFirstSpace ''# T'' = ''T''
   \<and> ''T'' \<notin> set (templateNames new_LGObject)
   \<and> plainBody lgEnv [''- hi'', ''- ho''] \<and> plainBody lgEnv [''- ho'', ''- hey'']
   \<and> acceptedPayloads lgEnv [''- hi'', ''- ho''] \<noteq> []
   \<and> (\<exists>p' ob'. toLG lgEnv (Array [''# T\<newline>- hi\<newline>- ho'', ''# T\<newline>- ho\<newline>- hey'']) = Inr p'
        \<and> LGObject p' = Some ob'
        \<and> templateView ob' = [(''T'', [''hi'', ''ho'', ''hey''], [])])"
proof -
  have a: "forEachE (toLG_chunk lgEnv) withLGObject [] = Inr withLGObject" by simp
  have b: "LGObject withLGObject = Some new_LGObject" by (rule withLGObject_LGObject)
  have c: "startsWith (INTENT lgEnv) (trim ''# T\<newline>- hi\<newline>- ho'')" by code_simp
  have d: "splitLines (trim ''# T\<newline>- hi\<newline>- ho'') = ''# T'' # [''- hi'', ''- ho'']" by code_simp
  have f: "startsWith (INTENT lgEnv) (trim ''# T\<newline>- ho\<newline>- hey'')" by code_simp
  have g: "splitLines (trim ''# T\<newline>- ho\<newline>- hey'') = ''# T'' # [''- ho'', ''- hey'']" by code_simp
  have h: "afterFirstSpace ''# T'' = ''T''" by code_simp
  have i: "''T'' \<noteq> []" by simp
  have j: "''T'' \<notin> set (templateNames new_LGObject)" by code_simp
  have k: "plainBody lgEnv [''- hi'', ''- ho'']" by code_simp
  have l: "plainBody lgEnv [''- ho'', ''- hey'']" by code_simp
  have m: "acceptedPayloads lgEnv [''- hi'', ''- ho''] \<noteq> []" by code_simp
  have v: "templateView new_LGObject = []" by code_simp
  have w: "foldl addVariation [] (acceptedPayloads lgEnv [''- hi'', ''- ho'']
      @ acceptedPayloads lgEnv [''- ho'', ''- hey'']) = [''hi'', ''ho'', ''hey'']"
    by code_simp
  from plain_chunks_merge [OF a b c d f g h h i j k l m, THEN conjunct1]
  obtain p' ob' where r: "toLG lgEnv (Array ([] @ [''# T\<newline>- hi\<newline>- ho'', ''# T\<newline>- ho\<newline>- hey''])) = Inr p'"
    and o: "LGObject p' = Some ob'"
    and t: "templateView ob' = templateView new_LGObject
          @ [(''T'', foldl addVariation [] (acceptedPayloads lgEnv [''- hi'', ''- ho'']
               @ acceptedPayloads lgEnv [''- ho'', ''- hey'']), [])]"
    by blast
  from t have "templateView ob' = [(''T'', [''hi'', ''ho'', ''hey''], [])]"
    by (simp only: v w append_Nil)
  with r o have "\<exists>p' ob'. toLG lgEnv (Array [''# T\<newline>- hi\<newline>- ho'', ''# T\<newline>- ho\<newline>- hey'']) = Inr p'
        \<and> LGObject p' = Some ob'
        \<and> templateView ob' = [(''T'', [''hi'', ''ho'', ''hey''], [])]"
    by (simp only: append_Nil) blast
  with a b c d f g h j k l m show ?thesis
    by (intro conjI)
qed

text \<open>
  Claim C2. Two template chunks of one name should give a single template whose flat
  variations are those of both chunks. The flag \<open>pushAtEnd\<close>, which decides whether
  the template of a chunk is pushed, is overwritten by the condition lines of the
  chunk. In the first list below the first chunk creates the template \<open>T\<close> with the
  variation \<^verbatim>\<open>hi\<close>, its last condition line finds the block of \<open>a\<close> again, and the
  template is not pushed: the second chunk creates \<open>T\<close> anew, and the variation
  \<^verbatim>\<open>hi\<close> is in no template of the result. In the second list the second chunk adds
  its variation to the listed template \<open>T\<close> and opens a new block, and the template
  is pushed a second time: the result lists two templates named \<open>T\<close>.
\<close>

theorem same_name_chunks_lose_variations:
  "map_sum id (\<lambda>p. map_option templateView (LGObject p))
     (toLG lgEnv (Array [''# T\<newline>- hi\<newline>- IF: a\<newline>- x\<newline>- IF: a\<newline>- y'', ''# T\<newline>- ho'']))
     = Inr (Some [(''T'', [''ho''], [])])
   \<and> map_sum id (\<lambda>p. map_option templateView (LGObject p))
     (toLG lgEnv (Array [''# T\<newline>- hi'', ''# T\<newline>- ho\<newline>- IF: a\<newline>- x'']))
     = Inr (Some [(''T'', [''hi'', ''ho''], [(''a'', [''x''])]),
                  (''T'', [''hi'', ''ho''], [(''a'', [''x''])])])"
  by code_simp

end
